theory Spec2Isabelle
  imports Complex_Main
begin

section \<open>JavaScript numbers\<close>

text \<open>
  A JavaScript number is a finite value, one of the two infinities, or NaN. A finite value
  is a real; the result of an operation on finite values is the exact result rounded to
  the nearest binary64 number, ties to even, and it is an infinity when the rounded
  magnitude reaches \<open>2^1024\<close>, as IEEE 754 has it. The two zeros are one value; the only
  divisors of the program are an array length and a sum that starts from \<open>0\<close>, neither of
  which is ever the negative zero.
\<close>

datatype jsnum = NaN | PInf | NInf | Fin real

fun isNaN :: "jsnum \<Rightarrow> bool" where
  "isNaN NaN = True"
| "isNaN _ = False"

text \<open>Rounding a real to the nearest integer, a tie going to the even one.\<close>

definition rne :: "real \<Rightarrow> int" where
  "rne x =
     (let f = \<lfloor>x\<rfloor>; d = x - of_int f
      in if d < 1 / 2 then f else if 1 / 2 < d then f + 1 else if even f then f else f + 1)"

text \<open>
  The binary exponent of a real, never below that of the subnormal numbers, and the
  distance between neighbouring binary64 numbers of that exponent (53 significant bits).
\<close>

definition expo :: "real \<Rightarrow> int" where
  "expo x = max \<lfloor>log 2 \<bar>x\<bar>\<rfloor> (- 1022)"

definition ulp :: "real \<Rightarrow> real" where
  "ulp x = 2 powr (of_int (expo x) - 52)"

text \<open>The binary64 value of a real.\<close>

definition fl :: "real \<Rightarrow> jsnum" where
  "fl x =
     (if x = 0 then Fin 0
      else
        (let y = of_int (rne (x / ulp x)) * ulp x
         in if 2 ^ 1024 \<le> y then PInf else if y \<le> - (2 ^ 1024) then NInf else Fin y))"

text \<open>\<open>a + b\<close>\<close>

fun jsadd :: "jsnum \<Rightarrow> jsnum \<Rightarrow> jsnum" where
  "jsadd NaN _ = NaN"
| "jsadd _ NaN = NaN"
| "jsadd PInf NInf = NaN"
| "jsadd NInf PInf = NaN"
| "jsadd PInf _ = PInf"
| "jsadd _ PInf = PInf"
| "jsadd NInf _ = NInf"
| "jsadd _ NInf = NInf"
| "jsadd (Fin a) (Fin b) = fl (a + b)"

text \<open>\<open>a * b\<close>\<close>

fun jsmul :: "jsnum \<Rightarrow> jsnum \<Rightarrow> jsnum" where
  "jsmul NaN _ = NaN"
| "jsmul _ NaN = NaN"
| "jsmul (Fin a) (Fin b) = fl (a * b)"
| "jsmul (Fin a) PInf = (if a = 0 then NaN else if 0 < a then PInf else NInf)"
| "jsmul (Fin a) NInf = (if a = 0 then NaN else if 0 < a then NInf else PInf)"
| "jsmul PInf (Fin b) = (if b = 0 then NaN else if 0 < b then PInf else NInf)"
| "jsmul NInf (Fin b) = (if b = 0 then NaN else if 0 < b then NInf else PInf)"
| "jsmul PInf PInf = PInf"
| "jsmul NInf NInf = PInf"
| "jsmul PInf NInf = NInf"
| "jsmul NInf PInf = NInf"

text \<open>\<open>a / b\<close>, a zero divisor being the positive zero\<close>

fun jsdiv :: "jsnum \<Rightarrow> jsnum \<Rightarrow> jsnum" where
  "jsdiv NaN _ = NaN"
| "jsdiv _ NaN = NaN"
| "jsdiv (Fin a) (Fin b) =
     (if b = 0 then (if a = 0 then NaN else if 0 < a then PInf else NInf)
      else fl (a / b))"
| "jsdiv (Fin a) PInf = Fin 0"
| "jsdiv (Fin a) NInf = Fin 0"
| "jsdiv PInf (Fin b) = (if 0 \<le> b then PInf else NInf)"
| "jsdiv NInf (Fin b) = (if 0 \<le> b then NInf else PInf)"
| "jsdiv PInf PInf = NaN"
| "jsdiv PInf NInf = NaN"
| "jsdiv NInf PInf = NaN"
| "jsdiv NInf NInf = NaN"

text \<open>\<open>a <= b\<close>: false as soon as one side is NaN\<close>

fun jsle :: "jsnum \<Rightarrow> jsnum \<Rightarrow> bool" where
  "jsle NaN _ = False"
| "jsle _ NaN = False"
| "jsle NInf _ = True"
| "jsle _ PInf = True"
| "jsle PInf _ = False"
| "jsle _ NInf = False"
| "jsle (Fin a) (Fin b) = (a \<le> b)"

text \<open>A weight the documentation allows: a finite number that is not negative.\<close>

fun nonneg_finite :: "jsnum \<Rightarrow> bool" where
  "nonneg_finite (Fin a) = (0 \<le> a)"
| "nonneg_finite _ = False"

text \<open>
  A value a JavaScript number can have: NaN, an infinity, or a real that is its own
  binary64 value.
\<close>

fun representable :: "jsnum \<Rightarrow> bool" where
  "representable (Fin a) = (fl a = Fin a)"
| "representable _ = True"

section \<open>The random source\<close>

text \<open>
  \<open>Math.random()\<close> reads an ambient generator. The generator is the sequence of the
  values it is going to return, each in \<open>[0, 1)\<close>, and the number of values drawn so far.
\<close>

record random_source =
  upcoming :: "nat \<Rightarrow> real"
  consumed :: nat

definition Math_random :: "random_source \<Rightarrow> jsnum \<times> random_source" where
  "Math_random rs = (Fin (upcoming rs (consumed rs)), rs\<lparr>consumed := Suc (consumed rs)\<rparr>)"

definition unit_interval :: "random_source \<Rightarrow> bool" where
  "unit_interval rs = (\<forall>k. 0 \<le> upcoming rs k \<and> upcoming rs k < 1)"

section \<open>utils.js: weightedRandomSelection\<close>

text \<open>\<open>weights[i]\<close>; past the end the read is \<open>undefined\<close>, which the addition turns into NaN.\<close>

definition weight_at :: "jsnum list \<Rightarrow> nat \<Rightarrow> jsnum" where
  "weight_at weights i = (if i < length weights then weights ! i else NaN)"

text \<open>\<open>weights.fill(v)\<close>: every slot of the array is overwritten, in place.\<close>

definition fill :: "jsnum list \<Rightarrow> jsnum \<Rightarrow> jsnum list" where
  "fill weights v = map (\<lambda>_. v) weights"

text \<open>
  The \<open>for\<close> loop of lines 36 to 41, entered at index \<open>i\<close> with the running sum
  \<open>cumulativeWeight\<close>; \<open>None\<close> is the \<open>null\<close> of line 42.
\<close>

function wrs_loop :: "'a list \<Rightarrow> jsnum list \<Rightarrow> jsnum \<Rightarrow> nat \<Rightarrow> jsnum \<Rightarrow> 'a option" where
  "wrs_loop elements weights randomValue i cumulativeWeight =
     (if i < length elements then
        (let cumulativeWeight' = jsadd cumulativeWeight (weight_at weights i) in
         if jsle randomValue cumulativeWeight' then Some (elements ! i)
         else wrs_loop elements weights randomValue (Suc i) cumulativeWeight')
      else None)"
  by pat_completeness auto
termination
  by (relation "measure (\<lambda>(elements, weights, randomValue, i, c). length elements - i)") auto

declare wrs_loop.simps [simp del]

text \<open>
  The function on the contents of two different arrays. It returns the selected element,
  the caller's weights array as the call leaves it (line 29 writes into it), and the
  random source. The call on arrays that may be one and the same is modelled further down.
\<close>

definition weightedRandomSelection ::
  "'a list \<Rightarrow> jsnum list \<Rightarrow> random_source \<Rightarrow> 'a option \<times> jsnum list \<times> random_source" where
  "weightedRandomSelection elements weights0 rs =
     (let weights =
            (if list_all isNaN weights0
             then fill weights0 (jsdiv (Fin 1) (Fin (real (length weights0))))
             else weights0);
          totalWeight = foldl jsadd (Fin 0) weights;
          (r, rs') = Math_random rs;
          randomValue = jsmul r totalWeight
      in (wrs_loop elements weights randomValue 0 (Fin 0), weights, rs'))"

text \<open>The inclusive cumulative weight of the element at index \<open>i\<close>.\<close>

definition cumulative :: "jsnum list \<Rightarrow> nat \<Rightarrow> jsnum" where
  "cumulative weights i = foldl jsadd (Fin 0) (take (Suc i) weights)"

section \<open>utils.js: weightedRandomSelection on the caller's arrays\<close>

text \<open>
  The function above takes the contents of two different arrays. Here the arrays are
  objects of a store, and \<open>elements\<close> and \<open>weights\<close> are references, which may be one and
  the same array. An array entry is a number or an object; read as a number, an object is
  NaN (so is the sum it is added to, and the test of line 28 holds of it).
\<close>

datatype 'a jsval = Number jsnum | Object 'a

fun toNumber :: "'a jsval \<Rightarrow> jsnum" where
  "toNumber (Number n) = n"
| "toNumber (Object _) = NaN"

text \<open>
  Line 29 writes into the array \<open>weights\<close> refers to; everything after it, the reads of
  \<open>elements\<close> included, sees the array as written. The result is the selected entry, the
  store and the random source as the call leaves them.
\<close>

definition weightedRandomSelection_on ::
  "(nat \<Rightarrow> 'a jsval list) \<Rightarrow> nat \<Rightarrow> nat \<Rightarrow> random_source
     \<Rightarrow> 'a jsval option \<times> (nat \<Rightarrow> 'a jsval list) \<times> random_source" where
  "weightedRandomSelection_on arrays0 elements weights rs =
     (let arrays =
            (if list_all (\<lambda>weight. isNaN (toNumber weight)) (arrays0 weights)
             then arrays0(weights :=
                    map (\<lambda>_. Number (jsdiv (Fin 1) (Fin (real (length (arrays0 weights))))))
                      (arrays0 weights))
             else arrays0);
          totalWeight = foldl (\<lambda>acc weight. jsadd acc (toNumber weight)) (Fin 0) (arrays weights);
          (r, rs') = Math_random rs;
          randomValue = jsmul r totalWeight
      in (wrs_loop (arrays elements) (map toNumber (arrays weights)) randomValue 0 (Fin 0),
          arrays, rs'))"

section \<open>gameInstance.js: GameInstance\<close>

text \<open>
  The classes \<open>Snake\<close> and \<open>Food\<close> are not part of the sources: their states are the type
  parameters \<open>'s\<close> and \<open>'f\<close>.
\<close>

record ('s, 'f) GameInstance =
  snake :: 's
  food :: 'f
  score :: jsnum
  isOver :: bool

text \<open>
  What the controller calls and the sources do not hold: the constructors and \<open>copy\<close>
  methods of \<open>Snake\<close> and \<open>Food\<close>, and the methods \<open>calculateFitness\<close>, \<open>reset\<close> and \<open>mutate\<close>
  of a game instance. They are parameters of the model.
\<close>

record ('s, 'f) collaborators =
  Snake_new :: 's
  Food_new :: 'f
  Snake_copy :: "'s \<Rightarrow> 's"
  Food_copy :: "'f \<Rightarrow> 'f"
  calculateFitness :: "('s, 'f) GameInstance \<Rightarrow> jsnum"
  reset :: "('s, 'f) GameInstance \<Rightarrow> ('s, 'f) GameInstance"
  mutate :: "('s, 'f) GameInstance \<Rightarrow> ('s, 'f) GameInstance"

text \<open>
  Modelled from the spec: \<open>GameInstance.reset\<close> is missing from the sources. The spec has it
  clear the terminal flag and the score of the instance it is called on.
\<close>

definition reset_contract :: "('s, 'f) collaborators \<Rightarrow> bool" where
  "reset_contract c = (\<forall>g. isOver (reset c g) = False \<and> score (reset c g) = Fin 0)"

text \<open>
  Game instances are objects: the population holds references, and one instance may sit
  in several slots. The store maps a reference to the state of its instance; \<open>nextRef\<close> is
  the next reference \<open>new\<close> hands out. The trace records every \<open>reset\<close> and \<open>mutate\<close> call
  with the instance it was made on.
\<close>

datatype event = Reset nat | Mutate nat

record ('s, 'f) world =
  store :: "nat \<Rightarrow> ('s, 'f) GameInstance"
  nextRef :: nat
  rng :: random_source
  trace :: "event list"

text \<open>The constructor of lines 6 to 11: it takes no parameter, so the arguments of a call are dropped.\<close>

definition GameInstance_new :: "('s, 'f) collaborators \<Rightarrow> 's \<Rightarrow> 'f \<Rightarrow> ('s, 'f) GameInstance" where
  "GameInstance_new c snakeArg foodArg =
     \<lparr>snake = Snake_new c, food = Food_new c, score = Fin 0, isOver = False\<rparr>"

definition call_reset :: "('s, 'f) collaborators \<Rightarrow> nat \<Rightarrow> ('s, 'f) world \<Rightarrow> ('s, 'f) world" where
  "call_reset c r w =
     w\<lparr>store := (store w)(r := reset c (store w r)), trace := trace w @ [Reset r]\<rparr>"

definition call_mutate :: "('s, 'f) collaborators \<Rightarrow> nat \<Rightarrow> ('s, 'f) world \<Rightarrow> ('s, 'f) world" where
  "call_mutate c r w =
     w\<lparr>store := (store w)(r := mutate c (store w r)), trace := trace w @ [Mutate r]\<rparr>"

section \<open>gameInstancesManager.js: GameInstancesManager\<close>

record GameInstancesManager =
  nInstances :: nat
  gameInstances :: "nat list"

datatype error = TypeError

definition GameInstancesManager_new :: "nat \<Rightarrow> GameInstancesManager" where
  "GameInstancesManager_new n = \<lparr>nInstances = n, gameInstances = []\<rparr>"

text \<open>\<open>createGameInstance\<close>: the new object gets the next reference.\<close>

definition createGameInstance ::
  "('s, 'f) collaborators \<Rightarrow> 's \<Rightarrow> 'f \<Rightarrow> ('s, 'f) world \<Rightarrow> nat \<times> ('s, 'f) world" where
  "createGameInstance c snakeArg foodArg w =
     (nextRef w,
      w\<lparr>store := (store w)(nextRef w := GameInstance_new c snakeArg foodArg),
        nextRef := Suc (nextRef w)\<rparr>)"

text \<open>The loop of \<open>createGameInstances\<close>, with \<open>k\<close> iterations left.\<close>

fun createGameInstances_loop ::
  "('s, 'f) collaborators \<Rightarrow> 's \<Rightarrow> 'f \<Rightarrow> nat \<Rightarrow> GameInstancesManager \<Rightarrow> ('s, 'f) world
     \<Rightarrow> GameInstancesManager \<times> ('s, 'f) world" where
  "createGameInstances_loop c snake0 food0 0 m w = (m, w)"
| "createGameInstances_loop c snake0 food0 (Suc k) m w =
     (let snakeCopy = Snake_copy c snake0;
          foodCopy = Food_copy c food0;
          (r, w') = createGameInstance c snakeCopy foodCopy w
      in createGameInstances_loop c snake0 food0 k
           (m\<lparr>gameInstances := gameInstances m @ [r]\<rparr>) w')"

definition createGameInstances ::
  "('s, 'f) collaborators \<Rightarrow> 's \<Rightarrow> 'f \<Rightarrow> GameInstancesManager \<times> ('s, 'f) world
     \<Rightarrow> GameInstancesManager \<times> ('s, 'f) world" where
  "createGameInstances c snake0 food0 mw =
     createGameInstances_loop c snake0 food0 (nInstances (fst mw)) (fst mw) (snd mw)"

definition fitnesses :: "('s, 'f) collaborators \<Rightarrow> GameInstancesManager \<Rightarrow> ('s, 'f) world \<Rightarrow> jsnum list" where
  "fitnesses c m w = map (\<lambda>r. calculateFitness c (store w r)) (gameInstances m)"

definition totalFitness :: "('s, 'f) collaborators \<Rightarrow> GameInstancesManager \<Rightarrow> ('s, 'f) world \<Rightarrow> jsnum" where
  "totalFitness c m w = foldl jsadd (Fin 0) (fitnesses c m w)"

definition fitnessesNormalized ::
  "('s, 'f) collaborators \<Rightarrow> GameInstancesManager \<Rightarrow> ('s, 'f) world \<Rightarrow> jsnum list" where
  "fitnessesNormalized c m w = map (\<lambda>fitness. jsdiv fitness (totalFitness c m w)) (fitnesses c m w)"

text \<open>
  The loop of \<open>selection\<close>, with \<open>k\<close> iterations left. \<open>population\<close> is \<open>this.gameInstances\<close>,
  \<open>weights\<close> the array \<open>fitnessesNormalized\<close> as the calls so far have left it; it is the
  new array \<open>map\<close> returned, a different array from the population. A \<open>null\<close> from
  \<open>weightedRandomSelection\<close> makes \<open>gameInstance.reset()\<close> throw a \<open>TypeError\<close>; the world
  keeps what the loop did before.
\<close>

fun selection_loop ::
  "('s, 'f) collaborators \<Rightarrow> nat list \<Rightarrow> nat \<Rightarrow> jsnum list \<Rightarrow> nat list \<Rightarrow> ('s, 'f) world
     \<Rightarrow> error option \<times> nat list \<times> ('s, 'f) world" where
  "selection_loop c population 0 weights newGameInstances w = (None, newGameInstances, w)"
| "selection_loop c population (Suc k) weights newGameInstances w =
     (case weightedRandomSelection population weights (rng w) of
        (gameInstance, weights', rs') \<Rightarrow>
          (case gameInstance of
             None \<Rightarrow> (Some TypeError, newGameInstances, w\<lparr>rng := rs'\<rparr>)
           | Some r \<Rightarrow>
               selection_loop c population k weights' (newGameInstances @ [r])
                 (call_reset c r (w\<lparr>rng := rs'\<rparr>))))"

text \<open>
  A method returns the exception it threw, if any, and the manager and the world as it
  leaves them. \<open>selection\<close> assigns \<open>this.gameInstances\<close> only when its loop has completed.
\<close>

definition selection ::
  "('s, 'f) collaborators \<Rightarrow> GameInstancesManager \<Rightarrow> ('s, 'f) world
     \<Rightarrow> error option \<times> GameInstancesManager \<times> ('s, 'f) world" where
  "selection c m w =
     (case selection_loop c (gameInstances m) (nInstances m) (fitnessesNormalized c m w) [] w of
        (None, newGameInstances, w') \<Rightarrow> (None, m\<lparr>gameInstances := newGameInstances\<rparr>, w')
      | (Some e, _, w') \<Rightarrow> (Some e, m, w'))"

definition mutation ::
  "('s, 'f) collaborators \<Rightarrow> GameInstancesManager \<Rightarrow> ('s, 'f) world
     \<Rightarrow> error option \<times> GameInstancesManager \<times> ('s, 'f) world" where
  "mutation c m w = (None, m, foldl (\<lambda>w' r. call_mutate c r w') w (gameInstances m))"

definition nextGeneration ::
  "('s, 'f) collaborators \<Rightarrow> GameInstancesManager \<Rightarrow> ('s, 'f) world
     \<Rightarrow> error option \<times> GameInstancesManager \<times> ('s, 'f) world" where
  "nextGeneration c m w =
     (case selection c m w of
        (None, m', w') \<Rightarrow> mutation c m' w'
      | (Some e, m', w') \<Rightarrow> (Some e, m', w'))"

definition allInstancesOver :: "GameInstancesManager \<Rightarrow> ('s, 'f) world \<Rightarrow> bool" where
  "allInstancesOver m w = list_all (\<lambda>r. isOver (store w r)) (gameInstances m)"

text \<open>How often \<open>mutate\<close> has been called on the instance \<open>r\<close>.\<close>

definition mutate_calls :: "('s, 'f) world \<Rightarrow> nat \<Rightarrow> nat" where
  "mutate_calls w r = count_list (trace w) (Mutate r)"

text \<open>How often \<open>mutate\<close> has been called in all.\<close>

definition mutate_total :: "('s, 'f) world \<Rightarrow> nat" where
  "mutate_total w =
     length (filter (\<lambda>e. case e of Mutate _ \<Rightarrow> True | Reset _ \<Rightarrow> False) (trace w))"

section \<open>A counting stub\<close>

text \<open>
  Collaborators to run the controller on: the snake is a counter that \<open>mutate\<close> increments,
  the fitness of an instance is its score, \<open>reset\<close> clears the score and the terminal flag.
  A fresh \<open>Snake\<close> is \<open>0\<close>, and \<open>copy\<close> returns its argument's state.
\<close>

definition stub :: "(nat, nat) collaborators" where
  "stub =
     \<lparr>Snake_new = 0, Food_new = 0, Snake_copy = (\<lambda>s. s), Food_copy = (\<lambda>f. f),
      calculateFitness = score,
      reset = (\<lambda>g. g\<lparr>score := Fin 0, isOver := False\<rparr>),
      mutate = (\<lambda>g. g\<lparr>snake := Suc (snake g)\<rparr>)\<rparr>"

text \<open>
  A world after an episode: the instance at reference \<open>r\<close> is over and has scored
  \<open>2 * r + 1\<close>. Every draw of the generator is \<open>u\<close>.
\<close>

definition finished_world :: "real \<Rightarrow> (nat, nat) world" where
  "finished_world u =
     \<lparr>store = (\<lambda>r. \<lparr>snake = 0, food = 0, score = Fin (2 * real r + 1), isOver = True\<rparr>),
      nextRef = 2,
      rng = \<lparr>upcoming = (\<lambda>_. u), consumed = 0\<rparr>,
      trace = []\<rparr>"

text \<open>The same world with every score at \<open>0\<close>.\<close>

definition scoreless_world :: "real \<Rightarrow> (nat, nat) world" where
  "scoreless_world u =
     \<lparr>store = (\<lambda>r. \<lparr>snake = 0, food = 0, score = Fin 0, isOver = True\<rparr>),
      nextRef = 2,
      rng = \<lparr>upcoming = (\<lambda>_. u), consumed = 0\<rparr>,
      trace = []\<rparr>"

text \<open>The same world with an infinite score for the instance \<open>0\<close>.\<close>

definition infinite_score_world :: "real \<Rightarrow> (nat, nat) world" where
  "infinite_score_world u =
     \<lparr>store = (\<lambda>r. \<lparr>snake = 0, food = 0, score = (if r = 0 then PInf else Fin 2),
                     isOver = True\<rparr>),
      nextRef = 2,
      rng = \<lparr>upcoming = (\<lambda>_. u), consumed = 0\<rparr>,
      trace = []\<rparr>"

text \<open>A manager of two instances, at the references \<open>0\<close> and \<open>1\<close>.\<close>

definition two_instances :: GameInstancesManager where
  "two_instances = \<lparr>nInstances = 2, gameInstances = [0, 1]\<rparr>"

text \<open>A store of two arrays: the objects \<open>a\<close> and \<open>b\<close> at \<open>0\<close>, and the numbers \<open>ws\<close> at \<open>1\<close>.\<close>

definition two_arrays :: "jsnum list \<Rightarrow> nat \<Rightarrow> char jsval list" where
  "two_arrays ws = (\<lambda>a. if a = 0 then map Object ''ab'' else if a = 1 then map Number ws else [])"

section \<open>Auxiliary notions of the proofs\<close>

text \<open>The grid of the binary64 numbers of an exponent, a real rounded to it, and the overflow.\<close>

definition grid :: "int \<Rightarrow> real" where
  "grid e = 2 powr (of_int e - 52)"

definition to_grid :: "int \<Rightarrow> real \<Rightarrow> real" where
  "to_grid e x = of_int (rne (x / grid e)) * grid e"

definition wrap :: "real \<Rightarrow> jsnum" where
  "wrap y = (if 2 ^ 1024 \<le> y then PInf else if y \<le> - (2 ^ 1024) then NInf else Fin y)"

text \<open>A weight between \<open>0\<close> and \<open>1\<close>.\<close>

fun unit_weight :: "jsnum \<Rightarrow> bool" where
  "unit_weight (Fin a) = (0 \<le> a \<and> a \<le> 1)"
| "unit_weight _ = False"

text \<open>
  Weights on which every draw lands on an element: all of them NaN, or all of them
  between \<open>0\<close> and \<open>1\<close>.
\<close>

definition selectable :: "jsnum list \<Rightarrow> bool" where
  "selectable weights = (list_all isNaN weights \<or> list_all unit_weight weights)"

text \<open>
  The index the loop of lines 36 to 41 stops at, on the weights \<open>weights\<close> and the draw \<open>u\<close>
  of \<open>Math.random()\<close>: the first one whose inclusive cumulative weight the random value
  \<open>u * totalWeight\<close> does not exceed.
\<close>

definition roulette_pick :: "jsnum list \<Rightarrow> real \<Rightarrow> nat \<Rightarrow> bool" where
  "roulette_pick weights u i =
     (i < length weights
      \<and> jsle (jsmul (Fin u) (foldl jsadd (Fin 0) weights)) (cumulative weights i)
      \<and> (\<forall>j<i. \<not> jsle (jsmul (Fin u) (foldl jsadd (Fin 0) weights)) (cumulative weights j)))"

text \<open>The weights array as line 29 leaves it.\<close>

definition after_fill :: "jsnum list \<Rightarrow> jsnum list" where
  "after_fill weights =
     (if list_all isNaN weights
      then fill weights (jsdiv (Fin 1) (Fin (real (length weights))))
      else weights)"

section \<open>Rounding\<close>

lemma rne_bounds: "of_int (rne x) - 1 / 2 \<le> x \<and> x \<le> of_int (rne x) + 1 / 2"
  unfolding rne_def Let_def by (auto; linarith)

lemma rne_mono: "x \<le> y \<Longrightarrow> rne x \<le> rne y"
proof (rule ccontr)
  assume xy: "x \<le> y" and "\<not> rne x \<le> rne y"
  then have "rne y + 1 \<le> rne x" by simp
  then have "real_of_int (rne y) + 1 \<le> real_of_int (rne x)" by linarith
  with rne_bounds[of x] rne_bounds[of y] xy have "x = y" by linarith
  with \<open>\<not> rne x \<le> rne y\<close> show False by simp
qed

lemma rne_of_int [simp]: "rne (of_int n) = n"
  by (simp add: rne_def)

lemma rne_nonneg: "0 \<le> x \<Longrightarrow> 0 \<le> rne x"
  using rne_mono[of 0 x] rne_of_int[of 0] by simp

lemma ulp_pos [simp]: "0 < ulp x"
  by (simp add: ulp_def)

lemma expo_ge [simp]: "- 1022 \<le> expo x"
  by (simp add: expo_def)

lemma expo_upper: "0 < x \<Longrightarrow> x < 2 powr (of_int (expo x) + 1)"
proof -
  assume x: "0 < x"
  have "log 2 x < of_int \<lfloor>log 2 x\<rfloor> + 1" by linarith
  also have "\<dots> \<le> of_int (expo x) + 1" using x by (simp add: expo_def)
  finally have "log 2 x < of_int (expo x) + 1" .
  then show ?thesis using x by (simp add: log_less_iff)
qed

lemma expo_lower: "0 < x \<Longrightarrow> - 1022 < expo x \<Longrightarrow> 2 powr (of_int (expo x)) \<le> x"
proof -
  assume x: "0 < x" and e: "- 1022 < expo x"
  then have "expo x = \<lfloor>log 2 x\<rfloor>" by (simp add: expo_def max_def split: if_splits)
  then have "of_int (expo x) \<le> log 2 x" by simp
  then show ?thesis using x by (simp add: le_log_iff)
qed

lemma expo_mono: "0 < x \<Longrightarrow> x \<le> y \<Longrightarrow> expo x \<le> expo y"
proof -
  assume "0 < x" "x \<le> y"
  then have "log 2 x \<le> log 2 y" by simp
  then have "\<lfloor>log 2 x\<rfloor> \<le> \<lfloor>log 2 y\<rfloor>" by (rule floor_mono)
  then show ?thesis using \<open>0 < x\<close> \<open>x \<le> y\<close> by (simp add: expo_def)
qed

lemma expo_eq:
  assumes "0 < x" "2 powr (of_int e) \<le> x" "x < 2 powr (of_int e + 1)" "- 1022 \<le> e"
  shows "expo x = e"
proof -
  have "\<lfloor>log 2 x\<rfloor> = e" using assms by (simp add: floor_log_eq_powr_iff)
  then show ?thesis using assms by (simp add: expo_def)
qed



lemma grid_pos [simp]: "0 < grid e"
  by (simp add: grid_def)

lemma ulp_grid: "ulp x = grid (expo x)"
  by (simp add: ulp_def grid_def)

lemma pow_on_grid: "2 powr (of_int e) = 2 ^ 52 * grid e"
proof -
  have "(2::real) powr (of_int e) = 2 powr (52 + (of_int e - 52))" by simp
  also have "\<dots> = 2 powr 52 * 2 powr (of_int e - 52)" by (rule powr_add)
  finally show ?thesis by (simp add: grid_def)
qed

lemma pow_succ_on_grid: "2 powr (of_int e + 1) = 2 ^ 53 * grid e"
proof -
  have "of_int e + 1 = 53 + (real_of_int e - 52)" by simp
  then have "(2::real) powr (of_int e + 1) = 2 powr (53 + (of_int e - 52))" by (rule arg_cong)
  also have "\<dots> = 2 powr 53 * 2 powr (of_int e - 52)" by (rule powr_add)
  finally show ?thesis by (simp add: grid_def)
qed

lemma grid_le: "e \<le> e' \<Longrightarrow> grid e' = 2 ^ nat (e' - e) * grid e"
proof -
  assume le: "e \<le> e'"
  have "grid e' = 2 powr (real (nat (e' - e)) + (of_int e - 52))"
    using le by (simp add: grid_def)
  also have "\<dots> = 2 powr real (nat (e' - e)) * 2 powr (of_int e - 52)" by (rule powr_add)
  finally show ?thesis by (simp add: grid_def powr_realpow)
qed


lemma to_grid_mono: "x \<le> y \<Longrightarrow> to_grid e x \<le> to_grid e y"
proof -
  assume "x \<le> y"
  moreover have "0 \<le> grid e" by (simp add: grid_def)
  ultimately have "x / grid e \<le> y / grid e" by (rule divide_right_mono)
  then have "rne (x / grid e) \<le> rne (y / grid e)" by (rule rne_mono)
  then show ?thesis by (simp add: to_grid_def)
qed

lemma to_grid_fix: "to_grid e (of_int m * grid e) = of_int m * grid e"
  by (simp add: to_grid_def)

lemma to_grid_nonneg: "0 \<le> x \<Longrightarrow> 0 \<le> to_grid e x"
  using to_grid_mono[of 0 x e] to_grid_fix[of e 0] by simp


lemma fl_alt: "fl x = (if x = 0 then Fin 0 else wrap (to_grid (expo x) x))"
  by (simp add: fl_def wrap_def to_grid_def ulp_grid Let_def)

lemma to_grid_upper: "0 < x \<Longrightarrow> to_grid (expo x) x \<le> 2 powr (of_int (expo x) + 1)"
proof -
  assume x: "0 < x"
  have "to_grid (expo x) x \<le> to_grid (expo x) (2 powr (of_int (expo x) + 1))"
    using expo_upper[OF x] by (intro to_grid_mono) simp
  also have "\<dots> = 2 powr (of_int (expo x) + 1)"
    using to_grid_fix[of "expo x" "2 ^ 53"] by (simp add: pow_succ_on_grid)
  finally show ?thesis .
qed

lemma to_grid_lower:
  "0 < x \<Longrightarrow> - 1022 < expo x \<Longrightarrow> 2 powr (of_int (expo x)) \<le> to_grid (expo x) x"
proof -
  assume x: "0 < x" and e: "- 1022 < expo x"
  have "2 powr (of_int (expo x)) = to_grid (expo x) (2 powr (of_int (expo x)))"
    using to_grid_fix[of "expo x" "2 ^ 52"] by (simp add: pow_on_grid)
  also have "\<dots> \<le> to_grid (expo x) x"
    using expo_lower[OF x e] by (rule to_grid_mono)
  finally show ?thesis .
qed

lemma to_grid_mono_expo:
  assumes x: "0 < x" and xy: "x \<le> y"
  shows "to_grid (expo x) x \<le> to_grid (expo y) y"
proof (cases "expo x = expo y")
  case True
  then show ?thesis using to_grid_mono[OF xy] by simp
next
  case False
  have y: "0 < y" using x xy by simp
  have lt: "expo x < expo y" using expo_mono[OF x xy] False by simp
  then have e: "- 1022 < expo y" using expo_ge[of x] by linarith
  have "to_grid (expo x) x \<le> 2 powr (of_int (expo x) + 1)" by (rule to_grid_upper[OF x])
  also have "\<dots> \<le> 2 powr (of_int (expo y))" using lt by (intro powr_mono) auto
  also have "\<dots> \<le> to_grid (expo y) y" by (rule to_grid_lower[OF y e])
  finally show ?thesis .
qed


lemma wrap_mono: "0 \<le> a \<Longrightarrow> a \<le> b \<Longrightarrow> jsle (wrap a) (wrap b)"
  by (simp add: wrap_def)

lemma wrap_zero [simp]: "wrap 0 = Fin 0"
  by (simp add: wrap_def)

lemma fl_zero [simp]: "fl 0 = Fin 0"
  by (simp add: fl_def)

lemma fl_mono: "0 \<le> x \<Longrightarrow> x \<le> y \<Longrightarrow> jsle (fl x) (fl y)"
proof -
  assume x: "0 \<le> x" and xy: "x \<le> y"
  show ?thesis
  proof (cases "x = 0")
    case True
    show ?thesis
    proof (cases "y = 0")
      case True
      with \<open>x = 0\<close> show ?thesis by simp
    next
      case False
      then have "0 \<le> to_grid (expo y) y" using x xy by (intro to_grid_nonneg) simp
      from wrap_mono[OF _ this] show ?thesis using \<open>x = 0\<close> False by (simp add: fl_alt)
    qed
  next
    case False
    then have x0: "0 < x" using x by simp
    then have y0: "y \<noteq> 0" using xy by simp
    have "0 \<le> to_grid (expo x) x" using x by (rule to_grid_nonneg)
    from wrap_mono[OF this to_grid_mono_expo[OF x0 xy]]
    show ?thesis using False y0 by (simp add: fl_alt)
  qed
qed

lemma fl_nonneg: "0 \<le> x \<Longrightarrow> fl x = PInf \<or> (\<exists>y. fl x = Fin y \<and> 0 \<le> y)"
proof -
  assume "0 \<le> x"
  then have "0 \<le> to_grid (expo x) x" by (rule to_grid_nonneg)
  then show ?thesis by (auto simp: fl_alt wrap_def)
qed

lemma fl_exact:
  assumes "0 \<le> y" "y < 2 ^ 1024" "y = of_int m * grid (expo y)"
  shows "fl y = Fin y"
proof (cases "y = 0")
  case True
  then show ?thesis by simp
next
  case False
  have "to_grid (expo y) y = y" using to_grid_fix[of "expo y" m] assms(3) by simp
  then show ?thesis using False assms(1,2) by (simp add: fl_alt wrap_def)
qed

lemma fl_idem:
  assumes x: "0 \<le> x" and fx: "fl x = Fin y"
  shows "fl y = Fin y"
proof (cases "x = 0")
  case True
  then show ?thesis using fx by simp
next
  case False
  then have x0: "0 < x" using x by simp
  let ?ex = "expo x"
  let ?m = "rne (x / grid ?ex)"
  have y: "y = to_grid ?ex x" and lt: "y < 2 ^ 1024"
    using fx False by (auto simp: fl_alt wrap_def split: if_splits)
  have y0: "0 \<le> y" unfolding y using x by (rule to_grid_nonneg)
  have ym: "y = of_int ?m * grid ?ex" by (simp add: y to_grid_def)
  show ?thesis
  proof (cases "y = 0")
    case True
    then show ?thesis by simp
  next
    case False
    then have ypos: "0 < y" using y0 by simp
    have "\<exists>m'. y = of_int m' * grid (expo y)"
    proof (cases "expo y \<le> ?ex")
      case True
      from grid_le[OF True] have "y = of_int (?m * 2 ^ nat (?ex - expo y)) * grid (expo y)"
        using ym by simp
      then show ?thesis by blast
    next
      case False
      then have lt': "?ex < expo y" by simp
      then have e: "- 1022 < expo y" using expo_ge[of x] by linarith
      have "y \<le> 2 powr (of_int ?ex + 1)" unfolding y by (rule to_grid_upper[OF x0])
      also have "\<dots> \<le> 2 powr (of_int (expo y))" using lt' by (intro powr_mono) auto
      finally have "y \<le> 2 powr (of_int (expo y))" .
      with expo_lower[OF ypos e] have "y = 2 powr (of_int (expo y))" by simp
      then have "y = of_int (2 ^ 52) * grid (expo y)" using pow_on_grid[of "expo y"] by simp
      then show ?thesis by blast
    qed
    then obtain m' where "y = of_int m' * grid (expo y)" by blast
    from fl_exact[OF y0 lt this] show ?thesis .
  qed
qed

lemma fl_dyadic:
  assumes m: "0 \<le> m" "m < 2 ^ 53" and k: "k \<le> 1022"
  shows "fl (of_int m / 2 ^ k) = Fin (of_int m / 2 ^ k)"
proof (cases "m = 0")
  case True
  then show ?thesis by simp
next
  case False
  let ?x = "real_of_int m / 2 ^ k"
  have mpos: "0 < m" using m(1) False by simp
  then have x0: "0 < ?x" by simp
  have xlt: "?x < 2 powr (53 - real k)"
  proof -
    have "real_of_int m < 2 ^ 53" using m(2) by (metis of_int_less_iff of_int_numeral of_int_power)
    then have "?x < 2 ^ 53 / 2 ^ k" by (simp add: divide_strict_right_mono)
    also have "\<dots> = 2 powr 53 / 2 powr (real k)" by (simp add: powr_realpow)
    also have "\<dots> = 2 powr (53 - real k)" by (simp add: powr_diff)
    finally show ?thesis .
  qed
  have ele: "expo ?x \<le> 52 - int k"
  proof (cases "- 1022 < expo ?x")
    case True
    from expo_lower[OF x0 True] xlt
    have "(2::real) powr (of_int (expo ?x)) < 2 powr (53 - real k)"
      by (rule le_less_trans)
    then have "real_of_int (expo ?x) < 53 - real k" by simp
    then show ?thesis by linarith
  next
    case False
    then have "expo ?x = - 1022" using expo_ge[of ?x] by linarith
    then show ?thesis using k by simp
  qed
  let ?j = "nat (52 - int k - expo ?x)"
  have "2 powr (- real k) = 2 powr (real ?j + (of_int (expo ?x) - 52))"
    using ele by (intro arg_cong[where f = "\<lambda>t. 2 powr t"]) simp
  also have "\<dots> = 2 ^ ?j * grid (expo ?x)"
    by (simp add: powr_add powr_realpow grid_def)
  finally have p: "2 powr (- real k) = 2 ^ ?j * grid (expo ?x)" .
  have "?x = real_of_int m * 2 powr (- real k)"
    by (simp add: powr_minus powr_realpow divide_inverse)
  then have "?x = of_int (m * 2 ^ ?j) * grid (expo ?x)" using p by simp
  moreover have "?x < 2 ^ 1024"
  proof -
    have "?x \<le> real_of_int m" using mpos by (simp add: divide_le_eq_1 field_simps)
    also have "\<dots> < 2 ^ 53" using m(2) by (metis of_int_less_iff of_int_numeral of_int_power)
    also have "\<dots> < (2::real) ^ 1024" by (intro power_strict_increasing) simp_all
    finally show ?thesis .
  qed
  ultimately show ?thesis using fl_exact[of ?x "m * 2 ^ ?j"] x0 by simp
qed

lemma fl_int: "0 \<le> m \<Longrightarrow> m < 2 ^ 53 \<Longrightarrow> fl (of_int m) = Fin (of_int m)"
  using fl_dyadic[of m 0] by simp

lemma fl_values:
  "fl 1 = Fin 1" "fl 2 = Fin 2" "fl 3 = Fin 3" "fl 4 = Fin 4" "fl 6 = Fin 6"
  "fl (1 / 2) = Fin (1 / 2)" "fl (1 / 4) = Fin (1 / 4)" "fl (3 / 4) = Fin (3 / 4)"
  using fl_int[of 1] fl_int[of 2] fl_int[of 3] fl_int[of 4] fl_int[of 6]
    fl_dyadic[of 1 1] fl_dyadic[of 1 2] fl_dyadic[of 3 2]
  by simp_all

lemma rne_half_even: "even n \<Longrightarrow> rne (of_int n + 1 / 2) = n"
proof -
  assume e: "even n"
  have "\<lfloor>real_of_int n + 1 / 2\<rfloor> = n" by linarith
  then show ?thesis using e by (simp add: rne_def)
qed

lemma fl_saturate: "fl (2 ^ 53 + 1) = Fin (2 ^ 53)"
proof -
  let ?x = "(2::real) ^ 53 + 1"
  have e: "expo ?x = 53"
    by (rule expo_eq) (simp_all add: powr_add)
  have g: "grid 53 = 2" by (simp add: grid_def)
  have "?x / 2 = of_int (2 ^ 52) + 1 / 2" by simp
  then have "rne (?x / 2) = 2 ^ 52" using rne_half_even[of "2 ^ 52"] by simp
  then have "to_grid 53 ?x = 2 ^ 53" by (simp add: to_grid_def g)
  then show ?thesis using e by (simp add: fl_alt wrap_def)
qed

section \<open>Sums of weights\<close>

lemma jsadd_NaN_right [simp]: "jsadd x NaN = NaN"
  by (cases x) simp_all

lemma jsmul_NaN_right [simp]: "jsmul x NaN = NaN"
  by (cases x) simp_all

lemma jsdiv_NaN_right [simp]: "jsdiv x NaN = NaN"
  by (cases x) simp_all

lemma isNaN_iff: "isNaN x \<longleftrightarrow> x = NaN"
  by (cases x) simp_all

lemma nonneg_finite_iff: "nonneg_finite x \<longleftrightarrow> (\<exists>a. x = Fin a \<and> 0 \<le> a)"
  by (cases x) simp_all

lemma unit_weight_iff: "unit_weight x \<longleftrightarrow> (\<exists>a. x = Fin a \<and> 0 \<le> a \<and> a \<le> 1)"
  by (cases x) simp_all

lemma unit_weight_nonneg: "list_all unit_weight ws \<Longrightarrow> list_all nonneg_finite ws"
  by (induction ws) (auto simp: unit_weight_iff)

lemma foldl_jsadd_NaN_acc: "foldl jsadd NaN ws = NaN"
  by (induction ws) simp_all

lemma foldl_jsadd_NaN: "NaN \<in> set ws \<Longrightarrow> foldl jsadd a ws = NaN"
  by (induction ws arbitrary: a) (auto simp: foldl_jsadd_NaN_acc)

lemma foldl_jsadd_PInf: "list_all nonneg_finite ws \<Longrightarrow> foldl jsadd PInf ws = PInf"
  by (induction ws) (auto simp: nonneg_finite_iff)

text \<open>A sum of weights that are not negative is not negative, and a binary64 value.\<close>

lemma foldl_jsadd_fixed:
  "list_all nonneg_finite ws \<Longrightarrow> 0 \<le> s \<Longrightarrow> fl s = Fin s \<Longrightarrow>
   foldl jsadd (Fin s) ws = Fin t \<Longrightarrow> 0 \<le> t \<and> fl t = Fin t"
proof (induction ws arbitrary: s)
  case Nil
  then show ?case by simp
next
  case (Cons w ws)
  then obtain a where a: "w = Fin a" "0 \<le> a" by (auto simp: nonneg_finite_iff)
  have sa: "0 \<le> s + a" using Cons.prems(2) a(2) by simp
  from fl_nonneg[OF sa] show ?case
  proof
    assume "fl (s + a) = PInf"
    then have "foldl jsadd (Fin s) (w # ws) = PInf"
      using a Cons.prems(1) by (simp add: foldl_jsadd_PInf)
    with Cons.prems(4) show ?thesis by simp
  next
    assume "\<exists>y. fl (s + a) = Fin y \<and> 0 \<le> y"
    then obtain y where y: "fl (s + a) = Fin y" "0 \<le> y" by blast
    from fl_idem[OF sa y(1)] have "fl y = Fin y" .
    moreover have "foldl jsadd (Fin y) ws = Fin t" using Cons.prems(4) a y by simp
    ultimately show ?thesis using Cons.IH[of y] Cons.prems(1) y(2) by simp
  qed
qed

text \<open>A sum of weights between \<open>0\<close> and \<open>1\<close> does not overflow: it stops growing at \<open>2^53\<close>.\<close>

lemma foldl_jsadd_bounded:
  "list_all unit_weight ws \<Longrightarrow> 0 \<le> s \<Longrightarrow> s \<le> 2 ^ 53 \<Longrightarrow>
   \<exists>t. foldl jsadd (Fin s) ws = Fin t \<and> 0 \<le> t \<and> t \<le> 2 ^ 53"
proof (induction ws arbitrary: s)
  case Nil
  then show ?case by simp
next
  case (Cons w ws)
  then obtain a where a: "w = Fin a" "0 \<le> a" "a \<le> 1" by (auto simp: unit_weight_iff)
  have sa: "0 \<le> s + a" "s + a \<le> 2 ^ 53 + 1" using Cons.prems(2,3) a(2,3) by simp_all
  have le: "jsle (fl (s + a)) (Fin (2 ^ 53))"
    using fl_mono[OF sa] unfolding fl_saturate .
  from fl_nonneg[OF sa(1)] le obtain y where y: "fl (s + a) = Fin y" "0 \<le> y" "y \<le> 2 ^ 53"
    by auto
  from Cons.IH[of y] Cons.prems(1) y a show ?case by simp
qed

section \<open>The loop of weightedRandomSelection\<close>

lemma weight_at_nth: "i < length ws \<Longrightarrow> weight_at ws i = ws ! i"
  by (simp add: weight_at_def)

lemma cumulative_Suc:
  "i < length ws \<Longrightarrow> cumulative ws i = jsadd (foldl jsadd (Fin 0) (take i ws)) (ws ! i)"
  by (simp add: cumulative_def take_Suc_conv_app_nth)

lemma wrs_loop_find:
  "length es \<le> length ws \<Longrightarrow> i \<le> length es \<Longrightarrow>
   wrs_loop es ws r i (foldl jsadd (Fin 0) (take i ws)) =
     map_option (\<lambda>j. es ! j) (find (\<lambda>j. jsle r (cumulative ws j)) [i..<length es])"
proof (induction "length es - i" arbitrary: i)
  case 0
  then show ?case by (simp add: wrs_loop.simps)
next
  case (Suc n)
  then have lt: "i < length es" and ltw: "i < length ws" by simp_all
  have step: "jsadd (foldl jsadd (Fin 0) (take i ws)) (weight_at ws i) = cumulative ws i"
    using ltw by (simp add: weight_at_nth cumulative_Suc)
  have next_cum: "cumulative ws i = foldl jsadd (Fin 0) (take (Suc i) ws)"
    by (simp add: cumulative_def)
  have ih: "wrs_loop es ws r (Suc i) (foldl jsadd (Fin 0) (take (Suc i) ws)) =
     map_option (\<lambda>j. es ! j) (find (\<lambda>j. jsle r (cumulative ws j)) [Suc i..<length es])"
    using Suc.hyps(1)[of "Suc i"] Suc.hyps(2) Suc.prems lt by simp
  show ?case
    using lt ih
    by (subst wrs_loop.simps) (simp add: step upt_conv_Cons Let_def next_cum)
qed

lemma wrs_loop_first:
  assumes len: "length es = length ws" and ne: "es \<noteq> []"
    and last: "jsle r (foldl jsadd (Fin 0) ws)"
  shows "\<exists>i<length es. wrs_loop es ws r 0 (Fin 0) = Some (es ! i)
           \<and> jsle r (cumulative ws i) \<and> (\<forall>j<i. \<not> jsle r (cumulative ws j))"
proof -
  let ?P = "\<lambda>j. jsle r (cumulative ws j)"
  let ?n = "length es"
  have n: "0 < ?n" using ne by simp
  have "cumulative ws (?n - 1) = foldl jsadd (Fin 0) ws"
    using n len by (simp add: cumulative_def)
  then have "?P (?n - 1)" using last by simp
  moreover have "?n - 1 \<in> set [0..<?n]" using n by simp
  ultimately have "find ?P [0..<?n] \<noteq> None"
    unfolding find_None_iff by blast
  then obtain k where k: "find ?P [0..<?n] = Some k" by blast
  then obtain i where i: "i < ?n" "?P ([0..<?n] ! i)" "k = [0..<?n] ! i"
      "\<forall>j<i. \<not> ?P ([0..<?n] ! j)"
    unfolding find_Some_iff by auto
  have ki: "k = i" using i(1,3) by simp
  have first: "\<forall>j<i. \<not> ?P j"
  proof (intro allI impI)
    fix j assume "j < i"
    then have "\<not> ?P ([0..<?n] ! j)" and "j < ?n" using i(4) i(1) by auto
    then show "\<not> ?P j" by simp
  qed
  have "wrs_loop es ws r 0 (Fin 0) = map_option (\<lambda>j. es ! j) (find ?P [0..<?n])"
    using wrs_loop_find[of es ws 0 r] len by simp
  then have "wrs_loop es ws r 0 (Fin 0) = Some (es ! i)" using k ki by simp
  moreover have "?P i" using i(1,2) by simp
  ultimately show ?thesis using i(1) first by blast
qed

lemma wrs_loop_NaN: "wrs_loop es ws NaN i c = None"
proof (induction "length es - i" arbitrary: i c)
  case 0
  then show ?case by (simp add: wrs_loop.simps)
next
  case (Suc n)
  then have "wrs_loop es ws NaN (Suc i) (jsadd c (weight_at ws i)) = None" by simp
  then show ?case by (subst wrs_loop.simps) (simp add: Let_def)
qed

text \<open>
  With a finite total of weights that are not negative, the random value does not exceed
  the total, so the loop stops at an element.
\<close>

lemma random_value_le_total:
  assumes "list_all nonneg_finite ws" and "foldl jsadd (Fin 0) ws = Fin t"
    and "0 \<le> u" and "u < 1"
  shows "jsle (jsmul (Fin u) (Fin t)) (Fin t)"
proof -
  from foldl_jsadd_fixed[OF assms(1) _ _ assms(2)] have t: "0 \<le> t" "fl t = Fin t" by simp_all
  have "0 \<le> u * t" "u * t \<le> t" using assms(3,4) t(1) by (simp_all add: mult_left_le_one_le)
  from fl_mono[OF this] show ?thesis using t(2) by simp
qed

lemma wrs_loop_pick:
  assumes ne: "es \<noteq> []" and len: "length es = length ws"
    and nn: "list_all nonneg_finite ws" and tot: "foldl jsadd (Fin 0) ws = Fin t"
    and u: "0 \<le> u" "u < 1"
  shows "\<exists>i. roulette_pick ws u i
           \<and> wrs_loop es ws (jsmul (Fin u) (Fin t)) 0 (Fin 0) = Some (es ! i)"
proof -
  have "jsle (jsmul (Fin u) (Fin t)) (foldl jsadd (Fin 0) ws)"
    using random_value_le_total[OF nn tot u] tot by simp
  from wrs_loop_first[OF len ne this] show ?thesis
    using len tot by (auto simp: roulette_pick_def)
qed

lemma fill_replicate: "fill ws v = replicate (length ws) v"
  by (simp add: fill_def map_replicate_const)

lemma not_all_NaN: "list_all nonneg_finite ws \<Longrightarrow> ws \<noteq> [] \<Longrightarrow> \<not> list_all isNaN ws"
  by (cases ws) (auto simp: nonneg_finite_iff)

lemma after_fill_same: "\<not> list_all isNaN ws \<Longrightarrow> after_fill ws = ws"
  by (simp add: after_fill_def)

lemma length_after_fill [simp]: "length (after_fill ws) = length ws"
  by (simp add: after_fill_def fill_def)

text \<open>What line 29 writes is a weight between \<open>0\<close> and \<open>1\<close>.\<close>

lemma uniform_weight: "0 < n \<Longrightarrow> unit_weight (jsdiv (Fin 1) (Fin (real n)))"
proof -
  assume n: "0 < n"
  have a: "0 \<le> 1 / real n" "1 / real n \<le> 1" using n by simp_all
  from fl_mono[OF a] have "jsle (fl (1 / real n)) (Fin 1)" by (simp add: fl_values)
  with fl_nonneg[OF a(1)] show ?thesis using n by (auto simp: unit_weight_iff)
qed

lemma after_fill_unit:
  "ws \<noteq> [] \<Longrightarrow> list_all isNaN ws \<Longrightarrow> list_all unit_weight (after_fill ws)"
  using uniform_weight[of "length ws"]
  by (simp add: after_fill_def fill_replicate list_all_iff)

lemma weightedRandomSelection_after_fill:
  "weightedRandomSelection es ws rs =
     (wrs_loop es (after_fill ws)
        (jsmul (Fin (upcoming rs (consumed rs))) (foldl jsadd (Fin 0) (after_fill ws))) 0 (Fin 0),
      after_fill ws, rs\<lparr>consumed := Suc (consumed rs)\<rparr>)"
  by (simp add: weightedRandomSelection_def Math_random_def after_fill_def Let_def)

text \<open>The call on weights that are all NaN, or all between \<open>0\<close> and \<open>1\<close>.\<close>

lemma wrs_selectable:
  assumes ne: "es \<noteq> []" and len: "length es = length ws" and sel: "selectable ws"
    and u: "0 \<le> upcoming rs (consumed rs)" "upcoming rs (consumed rs) < 1"
  shows "\<exists>i. roulette_pick (after_fill ws) (upcoming rs (consumed rs)) i
           \<and> weightedRandomSelection es ws rs =
               (Some (es ! i), after_fill ws, rs\<lparr>consumed := Suc (consumed rs)\<rparr>)
           \<and> list_all unit_weight (after_fill ws)"
proof -
  have wne: "ws \<noteq> []" using ne len by auto
  have unit: "list_all unit_weight (after_fill ws)"
  proof (cases "list_all isNaN ws")
    case True
    then show ?thesis by (rule after_fill_unit[OF wne])
  next
    case False
    then show ?thesis using sel by (simp add: selectable_def after_fill_same)
  qed
  from foldl_jsadd_bounded[OF unit, of 0] obtain t where
    t: "foldl jsadd (Fin 0) (after_fill ws) = Fin t" by auto
  have len': "length es = length (after_fill ws)" using len by simp
  from wrs_loop_pick[OF ne len' unit_weight_nonneg[OF unit] t u]
  show ?thesis using unit t by (auto simp: weightedRandomSelection_after_fill)
qed

lemma wrs_finite_total:
  assumes ne: "elements \<noteq> []" and len: "length elements = length weights"
    and nn: "list_all nonneg_finite weights"
    and tot: "foldl jsadd (Fin 0) weights = Fin t"
    and u: "0 \<le> upcoming rs (consumed rs)" "upcoming rs (consumed rs) < 1"
  shows "\<exists>i. roulette_pick weights (upcoming rs (consumed rs)) i
           \<and> weightedRandomSelection elements weights rs =
               (Some (elements ! i), weights, rs\<lparr>consumed := Suc (consumed rs)\<rparr>)"
proof -
  have wne: "weights \<noteq> []" using ne len by auto
  have same: "after_fill weights = weights"
    using not_all_NaN[OF nn wne] by (rule after_fill_same)
  from wrs_loop_pick[OF ne len nn tot u] show ?thesis
    using tot by (auto simp: weightedRandomSelection_after_fill same)
qed

lemma wrs_partial_NaN:
  assumes "\<exists>w\<in>set weights. isNaN w" and "\<exists>w\<in>set weights. \<not> isNaN w"
  shows "weightedRandomSelection elements weights rs =
           (None, weights, rs\<lparr>consumed := Suc (consumed rs)\<rparr>)"
proof -
  have notall: "\<not> list_all isNaN weights" using assms(2) by (auto simp: list_all_iff)
  have "NaN \<in> set weights" using assms(1) by (auto simp: isNaN_iff)
  then have "foldl jsadd (Fin 0) weights = NaN" by (rule foldl_jsadd_NaN)
  then show ?thesis
    using notall by (simp add: weightedRandomSelection_def Math_random_def wrs_loop_NaN)
qed

section \<open>Claims on weightedRandomSelection\<close>

text \<open>
  Claim C1. The documentation of \<open>weightedRandomSelection\<close> promises \<open>null\<close> when the weights
  sum to zero. The code does otherwise: with the weights \<open>[0, 0, 0]\<close> the draw is \<open>0\<close>, the
  first cumulative weight is \<open>0\<close>, the comparison \<open>0 <= 0\<close> holds, and the first element is
  returned, whatever the random source.
\<close>

theorem zero_total_returns_first_element:
  "fst (weightedRandomSelection [a, b, c] [Fin 0, Fin 0, Fin 0] rs) = Some a"
  by (simp add: weightedRandomSelection_def Math_random_def wrs_loop.simps weight_at_def Let_def)

text \<open>
  Claim C2. Elements and weights are non-empty and of equal length, every weight is a
  finite number that is not negative, and their total, as line 31 computes it, is a
  finite number \<open>t\<close> above \<open>0\<close>. With the draw \<open>u\<close> of \<open>Math.random()\<close> in \<open>[0, 1)\<close>, the
  random value is \<open>u * t\<close> as line 33 computes it, and the call returns the element at the
  first index whose inclusive cumulative weight the random value does not exceed; in
  particular it returns an element and not \<open>null\<close>.
\<close>

theorem positive_total_selects_first_reached:
  assumes "elements \<noteq> []" and "length elements = length weights"
    and "list_all nonneg_finite weights"
    and "foldl jsadd (Fin 0) weights = Fin t" and "0 < t"
    and "upcoming rs (consumed rs) = u" and "0 \<le> u" and "u < 1"
  shows "\<exists>i<length elements.
           fst (weightedRandomSelection elements weights rs) = Some (elements ! i)
           \<and> jsle (jsmul (Fin u) (Fin t)) (cumulative weights i)
           \<and> (\<forall>j<i. \<not> jsle (jsmul (Fin u) (Fin t)) (cumulative weights j))"
proof -
  from wrs_finite_total[OF assms(1,2,3,4)] assms(6,7,8)
  obtain i where "roulette_pick weights u i"
    "weightedRandomSelection elements weights rs =
       (Some (elements ! i), weights, rs\<lparr>consumed := Suc (consumed rs)\<rparr>)"
    by auto
  then show ?thesis using assms(2,4) by (intro exI[of _ i]) (simp add: roulette_pick_def)
qed

lemmas eval_defs = weightedRandomSelection_def Math_random_def wrs_loop.simps weight_at_def
  cumulative_def fill_def Let_def fl_values

theorem positive_total_selects_first_reached_witness:
  "foldl jsadd (Fin 0) [Fin 1, Fin 2, Fin 3] = Fin 6
   \<and> fst (weightedRandomSelection ''abc'' [Fin 1, Fin 2, Fin 3]
          \<lparr>upcoming = (\<lambda>_. 1 / 2), consumed = 0\<rparr>) = Some CHR ''b''
   \<and> jsmul (Fin (1 / 2)) (Fin 6) = Fin 3
   \<and> cumulative [Fin 1, Fin 2, Fin 3] 0 = Fin 1
   \<and> cumulative [Fin 1, Fin 2, Fin 3] 1 = Fin 3"
  using positive_total_selects_first_reached
    [of "''abc''" "[Fin 1, Fin 2, Fin 3]" 6 "\<lparr>upcoming = (\<lambda>_. 1 / 2), consumed = 0\<rparr>" "1 / 2"]
  by (simp add: eval_defs)

text \<open>
  Claim C4. Elements and weights are non-empty and of equal length, at least one weight
  is NaN and at least one is not. Then the test of line 28 fails, so the weights are not
  replaced; the total is NaN; and the call returns \<open>null\<close>, leaving the weights as they
  were.
\<close>

theorem partial_NaN_returns_null:
  assumes "elements \<noteq> []" and "length elements = length weights"
    and "\<exists>w\<in>set weights. isNaN w" and "\<exists>w\<in>set weights. \<not> isNaN w"
  shows "\<not> list_all isNaN weights
         \<and> foldl jsadd (Fin 0) weights = NaN
         \<and> weightedRandomSelection elements weights rs =
             (None, weights, rs\<lparr>consumed := Suc (consumed rs)\<rparr>)"
proof -
  have "\<not> list_all isNaN weights" using assms(4) by (auto simp: list_all_iff)
  moreover have "NaN \<in> set weights" using assms(3) by (auto simp: isNaN_iff)
  then have "foldl jsadd (Fin 0) weights = NaN" by (rule foldl_jsadd_NaN)
  ultimately show ?thesis using wrs_partial_NaN[OF assms(3,4)] by simp
qed

theorem partial_NaN_returns_null_witness:
  "weightedRandomSelection ''abc'' [Fin 1, NaN, Fin 3] \<lparr>upcoming = (\<lambda>_. 0), consumed = 0\<rparr> =
     (None, [Fin 1, NaN, Fin 3], \<lparr>upcoming = (\<lambda>_. 0), consumed = 1\<rparr>)"
  using partial_NaN_returns_null
    [of "''abc''" "[Fin 1, NaN, Fin 3]" "\<lparr>upcoming = (\<lambda>_. 0), consumed = 0\<rparr>"]
  by simp

section \<open>The arrays of the caller\<close>

lemma foldl_toNumber:
  "foldl (\<lambda>acc weight. jsadd acc (toNumber weight)) a vs = foldl jsadd a (map toNumber vs)"
  by (induction vs arbitrary: a) simp_all

lemma list_all_toNumber:
  "list_all (\<lambda>weight. isNaN (toNumber weight)) vs = list_all isNaN (map toNumber vs)"
  by (simp add: list_all_iff)

text \<open>
  On two different arrays the call on the store returns what the function on the contents
  of the arrays returns, and leaves the weights array with the contents that function gives.
\<close>

lemma weightedRandomSelection_on_distinct:
  assumes "elements \<noteq> weights"
  shows "fst (weightedRandomSelection_on arrays elements weights rs) =
           fst (weightedRandomSelection (arrays elements) (map toNumber (arrays weights)) rs)
         \<and> map toNumber (fst (snd (weightedRandomSelection_on arrays elements weights rs)) weights) =
           fst (snd (weightedRandomSelection (arrays elements) (map toNumber (arrays weights)) rs))
         \<and> snd (snd (weightedRandomSelection_on arrays elements weights rs)) =
           snd (snd (weightedRandomSelection (arrays elements) (map toNumber (arrays weights)) rs))"
  using assms
  by (simp add: weightedRandomSelection_on_def weightedRandomSelection_def Math_random_def
      Let_def foldl_toNumber list_all_toNumber fill_def comp_def)

text \<open>
  Claim C5, as stated, fails. When every weight is NaN, line 29 fills the caller's own
  array: the weights \<open>[NaN, NaN]\<close> are left as \<open>[1/2, 1/2]\<close>. When the caller passes that
  array as the elements too, the elements array is the one overwritten, and the call
  returns the \<open>1/2\<close> it wrote.
\<close>

theorem weights_unchanged_counterexample:
  "two_arrays [NaN, NaN] 1 = [Number NaN, Number NaN]
   \<and> fst (snd (weightedRandomSelection_on (two_arrays [NaN, NaN]) 0 1
        \<lparr>upcoming = (\<lambda>_. 0), consumed = 0\<rparr>)) 1 = [Number (Fin (1 / 2)), Number (Fin (1 / 2))]
   \<and> weightedRandomSelection_on (two_arrays [NaN, NaN]) 1 1 \<lparr>upcoming = (\<lambda>_. 0), consumed = 0\<rparr>
       = (Some (Number (Fin (1 / 2))),
          (two_arrays [NaN, NaN])(1 := [Number (Fin (1 / 2)), Number (Fin (1 / 2))]),
          \<lparr>upcoming = (\<lambda>_. 0), consumed = 1\<rparr>)"
  by (simp add: weightedRandomSelection_on_def two_arrays_def eval_defs)

text \<open>
  Claim C5, amended. A call consumes exactly one random draw and leaves the generator's
  sequence alone. It writes no array but the caller's weights array, so the elements array
  is unchanged whenever it is not the weights array itself. The weights array is
  unchanged unless every weight is NaN; then every slot of it is overwritten with
  \<open>1 / weights.length\<close>.
\<close>

theorem weightedRandomSelection_effects:
  "(\<forall>a. a \<noteq> weights \<longrightarrow>
       fst (snd (weightedRandomSelection_on arrays elements weights rs)) a = arrays a)
   \<and> (elements \<noteq> weights \<longrightarrow>
       fst (snd (weightedRandomSelection_on arrays elements weights rs)) elements = arrays elements)
   \<and> (\<not> list_all (\<lambda>weight. isNaN (toNumber weight)) (arrays weights) \<longrightarrow>
       fst (snd (weightedRandomSelection_on arrays elements weights rs)) weights = arrays weights)
   \<and> (list_all (\<lambda>weight. isNaN (toNumber weight)) (arrays weights) \<longrightarrow>
       fst (snd (weightedRandomSelection_on arrays elements weights rs)) weights =
         replicate (length (arrays weights))
           (Number (jsdiv (Fin 1) (Fin (real (length (arrays weights)))))))
   \<and> consumed (snd (snd (weightedRandomSelection_on arrays elements weights rs))) = consumed rs + 1
   \<and> upcoming (snd (snd (weightedRandomSelection_on arrays elements weights rs))) = upcoming rs"
  by (simp add: weightedRandomSelection_on_def Math_random_def Let_def map_replicate_const)

theorem weightedRandomSelection_effects_witness:
  "fst (snd (weightedRandomSelection_on (two_arrays [Fin 1, NaN]) 0 1
        \<lparr>upcoming = (\<lambda>_. 0), consumed = 4\<rparr>)) 1 = [Number (Fin 1), Number NaN]
   \<and> fst (snd (weightedRandomSelection_on (two_arrays [NaN, NaN]) 0 1
        \<lparr>upcoming = (\<lambda>_. 0), consumed = 4\<rparr>)) 1 = [Number (Fin (1 / 2)), Number (Fin (1 / 2))]
   \<and> fst (snd (weightedRandomSelection_on (two_arrays [NaN, NaN]) 0 1
        \<lparr>upcoming = (\<lambda>_. 0), consumed = 4\<rparr>)) 0 = [Object CHR ''a'', Object CHR ''b'']
   \<and> consumed (snd (snd (weightedRandomSelection_on (two_arrays [NaN, NaN]) 0 1
        \<lparr>upcoming = (\<lambda>_. 0), consumed = 4\<rparr>))) = 5"
  using weightedRandomSelection_effects
      [of 1 "two_arrays [Fin 1, NaN]" 0 "\<lparr>upcoming = (\<lambda>_. 0), consumed = 4\<rparr>"]
    weightedRandomSelection_effects
      [of 1 "two_arrays [NaN, NaN]" 0 "\<lparr>upcoming = (\<lambda>_. 0), consumed = 4\<rparr>"]
  by (simp add: two_arrays_def fl_values numeral_2_eq_2)

section \<open>The selection loop\<close>

lemma selection_loop_length:
  "selection_loop c pop k ws new w = (None, new', w') \<Longrightarrow> length new' = length new + k"
proof (induction k arbitrary: ws new w)
  case 0
  then show ?case by simp
next
  case (Suc k)
  then show ?case
    by (auto split: prod.splits option.splits)
qed

lemma wrs_loop_mem: "wrs_loop es ws r i c = Some x \<Longrightarrow> x \<in> set es"
proof (induction "length es - i" arbitrary: i c)
  case 0
  then show ?case by (simp add: wrs_loop.simps)
next
  case (Suc n)
  have n: "n = length es - Suc i" using Suc.hyps(2) by simp
  from Suc.prems show ?case
    by (subst (asm) wrs_loop.simps) (auto simp: Let_def split: if_splits dest: Suc.hyps(1)[OF n])
qed

lemma weightedRandomSelection_mem:
  "weightedRandomSelection es ws rs = (Some x, ws', rs') \<Longrightarrow> x \<in> set es"
  by (auto simp: weightedRandomSelection_after_fill dest: wrs_loop_mem)

lemma selection_loop_subset:
  "selection_loop c pop k ws new w = (None, new', w') \<Longrightarrow> set new' \<subseteq> set new \<union> set pop"
proof (induction k arbitrary: ws new w)
  case 0
  then show ?case by auto
next
  case (Suc k)
  obtain g ws1 rs1 where step: "weightedRandomSelection pop ws (rng w) = (g, ws1, rs1)"
    by (cases "weightedRandomSelection pop ws (rng w)") auto
  with Suc.prems obtain r where r: "g = Some r" by (cases g) auto
  have "r \<in> set pop" using step r by (auto dest: weightedRandomSelection_mem)
  moreover have "set new' \<subseteq> set (new @ [r]) \<union> set pop"
    using Suc.prems step r by (intro Suc.IH[of ws1 "new @ [r]"]) simp
  ultimately show ?case by auto
qed

lemma unit_interval_consumed [simp]:
  "unit_interval (rs\<lparr>consumed := n\<rparr>) = unit_interval rs"
  by (simp add: unit_interval_def)

lemma rng_call_reset [simp]: "rng (call_reset c r w) = rng w"
  by (simp add: call_reset_def)

lemma after_fill_idem: "ws \<noteq> [] \<Longrightarrow> selectable ws \<Longrightarrow> after_fill (after_fill ws) = after_fill ws"
proof -
  assume ne: "ws \<noteq> []" and sel: "selectable ws"
  have "list_all unit_weight (after_fill ws)"
    using sel after_fill_unit[OF ne] by (cases "list_all isNaN ws") (auto simp: selectable_def after_fill_same)
  then have "\<not> list_all isNaN (after_fill ws)"
    using ne not_all_NaN[OF unit_weight_nonneg, of "after_fill ws"] by (simp add: after_fill_def fill_def split: if_splits)
  then show ?thesis by (rule after_fill_same)
qed

text \<open>
  On selectable weights the loop completes, and each of its picks is the pick of the
  draw it consumed, on the weights as line 29 left them at the first call.
\<close>

lemma selection_loop_picks:
  assumes ne: "pop \<noteq> []"
  shows "length pop = length ws \<Longrightarrow> selectable ws \<Longrightarrow> unit_interval (rng w) \<Longrightarrow>
         \<exists>picks w'. selection_loop c pop k ws new w = (None, new @ picks, w')
            \<and> length picks = k
            \<and> (\<forall>q<k. \<exists>i. roulette_pick (after_fill ws) (upcoming (rng w) (consumed (rng w) + q)) i
                     \<and> picks ! q = pop ! i)"
proof (induction k arbitrary: ws new w)
  case 0
  then show ?case by simp
next
  case (Suc k)
  let ?rs = "rng w"
  have wne: "ws \<noteq> []" using ne Suc.prems(1) by auto
  have u: "0 \<le> upcoming ?rs (consumed ?rs)" "upcoming ?rs (consumed ?rs) < 1"
    using Suc.prems(3) by (simp_all add: unit_interval_def)
  from wrs_selectable[OF ne Suc.prems(1,2) u] obtain i0 where step:
    "roulette_pick (after_fill ws) (upcoming ?rs (consumed ?rs)) i0"
    "weightedRandomSelection pop ws ?rs =
       (Some (pop ! i0), after_fill ws, ?rs\<lparr>consumed := Suc (consumed ?rs)\<rparr>)"
    "list_all unit_weight (after_fill ws)"
    by blast
  let ?w1 = "call_reset c (pop ! i0) (w\<lparr>rng := ?rs\<lparr>consumed := Suc (consumed ?rs)\<rparr>\<rparr>)"
  have a: "length pop = length (after_fill ws)" using Suc.prems(1) by simp
  have b: "selectable (after_fill ws)" using step(3) by (simp add: selectable_def)
  have c: "unit_interval (rng ?w1)" using Suc.prems(3) by simp
  from Suc.IH[OF a b c, of "new @ [pop ! i0]"] obtain picks w' where rest:
    "selection_loop c pop k (after_fill ws) (new @ [pop ! i0]) ?w1
       = (None, (new @ [pop ! i0]) @ picks, w')"
    "length picks = k"
    "\<forall>q<k. \<exists>i. roulette_pick (after_fill (after_fill ws))
                  (upcoming (rng ?w1) (consumed (rng ?w1) + q)) i
        \<and> picks ! q = pop ! i"
    by blast
  have run: "selection_loop c pop (Suc k) ws new w = (None, new @ (pop ! i0 # picks), w')"
    using step(2) rest(1) by simp
  have all: "\<exists>i. roulette_pick (after_fill ws) (upcoming ?rs (consumed ?rs + q)) i
        \<and> (pop ! i0 # picks) ! q = pop ! i" if "q < Suc k" for q
  proof (cases q)
    case 0
    then show ?thesis using step(1) by auto
  next
    case (Suc q')
    then have "q' < k" using that by simp
    with rest(3) obtain i where
      "roulette_pick (after_fill (after_fill ws)) (upcoming (rng ?w1) (consumed (rng ?w1) + q')) i"
      "picks ! q' = pop ! i" by blast
    then show ?thesis using Suc after_fill_idem[OF wne Suc.prems(2)] by auto
  qed
  show ?case using run rest(2) all by (intro exI[of _ "pop ! i0 # picks"] exI[of _ w']) simp
qed

section \<open>Normalized fitness\<close>

lemma foldl_jsadd_cases:
  "list_all nonneg_finite fs \<Longrightarrow> 0 \<le> s \<Longrightarrow>
   foldl jsadd (Fin s) fs = PInf \<or> (\<exists>t. foldl jsadd (Fin s) fs = Fin t)"
proof (induction fs arbitrary: s)
  case Nil
  then show ?case by simp
next
  case (Cons f fs)
  then obtain a where a: "f = Fin a" "0 \<le> a" by (auto simp: nonneg_finite_iff)
  have sa: "0 \<le> s + a" using Cons.prems(2) a(2) by simp
  from fl_nonneg[OF sa] show ?case
  proof
    assume "fl (s + a) = PInf"
    then show ?thesis using a Cons.prems(1) by (simp add: foldl_jsadd_PInf)
  next
    assume "\<exists>y. fl (s + a) = Fin y \<and> 0 \<le> y"
    then obtain y where y: "fl (s + a) = Fin y" "0 \<le> y" by blast
    from Cons.IH[of y] Cons.prems(1) y a show ?thesis by simp
  qed
qed

text \<open>A finite sum of binary64 values that are not negative is at least each of them.\<close>

lemma foldl_jsadd_upper:
  "list_all (\<lambda>f. nonneg_finite f \<and> representable f) fs \<Longrightarrow> 0 \<le> s \<Longrightarrow> fl s = Fin s \<Longrightarrow>
   foldl jsadd (Fin s) fs = Fin t \<Longrightarrow> s \<le> t \<and> (\<forall>a. Fin a \<in> set fs \<longrightarrow> a \<le> t)"
proof (induction fs arbitrary: s)
  case Nil
  then show ?case by simp
next
  case (Cons f fs)
  then obtain a where a: "f = Fin a" "0 \<le> a" "fl a = Fin a"
    by (cases f) auto
  have nn: "list_all nonneg_finite fs" using Cons.prems(1) by (simp add: list_all_iff)
  have sa: "0 \<le> s + a" using Cons.prems(2) a(2) by simp
  from fl_nonneg[OF sa] show ?case
  proof
    assume "fl (s + a) = PInf"
    then have "foldl jsadd (Fin s) (f # fs) = PInf" using a nn by (simp add: foldl_jsadd_PInf)
    with Cons.prems(4) show ?thesis by simp
  next
    assume "\<exists>y. fl (s + a) = Fin y \<and> 0 \<le> y"
    then obtain y where y: "fl (s + a) = Fin y" "0 \<le> y" by blast
    have fy: "fl y = Fin y" by (rule fl_idem[OF sa y(1)])
    have "jsle (fl s) (fl (s + a))" using Cons.prems(2) a(2) by (intro fl_mono) simp_all
    then have sy: "s \<le> y" using Cons.prems(3) y(1) by simp
    have "jsle (fl a) (fl (s + a))" using Cons.prems(2) a(2) by (intro fl_mono) simp_all
    then have ay: "a \<le> y" using a(3) y(1) by simp
    have "foldl jsadd (Fin y) fs = Fin t" using Cons.prems(4) a y by simp
    from Cons.IH[OF _ y(2) fy this] Cons.prems(1)
    have "y \<le> t" "\<forall>b. Fin b \<in> set fs \<longrightarrow> b \<le> t" by simp_all
    then show ?thesis using sy ay a(1) by auto
  qed
qed

lemma normalized_selectable:
  assumes "list_all (\<lambda>f. isNaN f \<or> nonneg_finite f \<and> representable f) fs"
  shows "selectable (map (\<lambda>f. jsdiv f (foldl jsadd (Fin 0) fs)) fs)"
proof (cases "NaN \<in> set fs")
  case True
  then have "foldl jsadd (Fin 0) fs = NaN" by (rule foldl_jsadd_NaN)
  then show ?thesis by (simp add: selectable_def list_all_iff)
next
  case False
  then have good: "list_all (\<lambda>f. nonneg_finite f \<and> representable f) fs"
    using assms by (auto simp: list_all_iff isNaN_iff)
  then have nn: "list_all nonneg_finite fs" by (simp add: list_all_iff)
  have z: "0 \<le> (0::real)" by simp
  from foldl_jsadd_cases[OF nn z] show ?thesis
  proof
    assume inf: "foldl jsadd (Fin 0) fs = PInf"
    have "list_all unit_weight (map (\<lambda>f. jsdiv f PInf) fs)"
      using nn by (induction fs) (auto simp: nonneg_finite_iff)
    then show ?thesis using inf by (simp add: selectable_def)
  next
    assume "\<exists>t. foldl jsadd (Fin 0) fs = Fin t"
    then obtain t where t: "foldl jsadd (Fin 0) fs = Fin t" by blast
    from foldl_jsadd_upper[OF good _ _ t] have up: "0 \<le> t" "\<forall>a. Fin a \<in> set fs \<longrightarrow> a \<le> t"
      by simp_all
    show ?thesis
    proof (cases "t = 0")
      case True
      have "\<forall>f\<in>set fs. f = Fin 0"
      proof
        fix f assume f: "f \<in> set fs"
        then obtain a where a: "f = Fin a" "0 \<le> a" using nn by (auto simp: list_all_iff nonneg_finite_iff)
        then have "a \<le> 0" using up(2) f True by auto
        then show "f = Fin 0" using a by simp
      qed
      then have "list_all isNaN (map (\<lambda>f. jsdiv f (Fin 0)) fs)"
        by (induction fs) simp_all
      then show ?thesis using t True by (simp add: selectable_def)
    next
      case False
      then have pos: "0 < t" using up(1) by simp
      have "\<forall>f\<in>set fs. unit_weight (jsdiv f (Fin t))"
      proof
        fix f assume f: "f \<in> set fs"
        then obtain a where a: "f = Fin a" "0 \<le> a" using nn by (auto simp: list_all_iff nonneg_finite_iff)
        then have "a \<le> t" using up(2) f by auto
        then have q: "0 \<le> a / t" "a / t \<le> 1" using a(2) pos by simp_all
        from fl_mono[OF q] have "jsle (fl (a / t)) (Fin 1)" by (simp add: fl_values)
        with fl_nonneg[OF q(1)] show "unit_weight (jsdiv f (Fin t))"
          using a(1) pos by (auto simp: unit_weight_iff)
      qed
      then show ?thesis using t by (simp add: selectable_def list_all_iff)
    qed
  qed
qed

lemma zero_total_normalized:
  assumes good: "list_all (\<lambda>f. nonneg_finite f \<and> representable f) fs"
    and z: "foldl jsadd (Fin 0) fs = Fin 0"
  shows "list_all isNaN (map (\<lambda>f. jsdiv f (foldl jsadd (Fin 0) fs)) fs)"
proof -
  from foldl_jsadd_upper[OF good _ _ z] have up: "\<forall>a. Fin a \<in> set fs \<longrightarrow> a \<le> 0" by simp
  have "\<forall>f\<in>set fs. f = Fin 0"
  proof
    fix f assume f: "f \<in> set fs"
    then obtain a where a: "f = Fin a" "0 \<le> a"
      using good by (auto simp: list_all_iff nonneg_finite_iff)
    then have "a \<le> 0" using up f by auto
    then show "f = Fin 0" using a by simp
  qed
  then have "list_all isNaN (map (\<lambda>f. jsdiv f (Fin 0)) fs)"
    by (induction fs) simp_all
  then show ?thesis using z by simp
qed

section \<open>Selection\<close>

lemma selection_None:
  "fst (selection c m w) = None \<Longrightarrow>
   \<exists>picks w'. selection_loop c (gameInstances m) (nInstances m) (fitnessesNormalized c m w) [] w
                 = (None, picks, w')
      \<and> selection c m w = (None, m\<lparr>gameInstances := picks\<rparr>, w')"
  by (cases "selection_loop c (gameInstances m) (nInstances m) (fitnessesNormalized c m w) [] w")
    (auto simp: selection_def split: option.splits)

lemma selection_Some:
  "fst (selection c m w) \<noteq> None \<Longrightarrow> fst (snd (selection c m w)) = m"
  by (cases "selection_loop c (gameInstances m) (nInstances m) (fitnessesNormalized c m w) [] w")
    (auto simp: selection_def split: option.splits)

text \<open>When \<open>selection()\<close> returns, it has installed \<open>nInstances\<close> members of the old population.\<close>

lemma selection_builds:
  assumes "fst (selection c m w) = None"
  shows "length (gameInstances (fst (snd (selection c m w)))) = nInstances m
         \<and> set (gameInstances (fst (snd (selection c m w)))) \<subseteq> set (gameInstances m)
         \<and> nInstances (fst (snd (selection c m w))) = nInstances m"
proof -
  from selection_None[OF assms] obtain picks w' where run:
    "selection_loop c (gameInstances m) (nInstances m) (fitnessesNormalized c m w) [] w
       = (None, picks, w')"
    "selection c m w = (None, m\<lparr>gameInstances := picks\<rparr>, w')"
    by blast
  from selection_loop_length[OF run(1)] selection_loop_subset[OF run(1)] run(2)
  show ?thesis by simp
qed

text \<open>
  With fitness values that are NaN or binary64 values that are not negative, \<open>selection()\<close>
  returns, and each slot of the new population holds the pick of its own draw on the
  normalized weights as line 29 left them.
\<close>

lemma selection_succeeds:
  assumes ne: "gameInstances m \<noteq> [] \<or> nInstances m = 0"
    and fit: "list_all (\<lambda>f. isNaN f \<or> nonneg_finite f \<and> representable f) (fitnesses c m w)"
    and u: "unit_interval (rng w)"
  shows "fst (selection c m w) = None
         \<and> (\<forall>q<nInstances m. \<exists>i.
               roulette_pick (after_fill (fitnessesNormalized c m w))
                 (upcoming (rng w) (consumed (rng w) + q)) i
               \<and> gameInstances (fst (snd (selection c m w))) ! q = gameInstances m ! i)"
proof (cases "gameInstances m = []")
  case True
  then have "nInstances m = 0" using ne by simp
  then show ?thesis by (simp add: selection_def)
next
  case False
  have sel: "selectable (fitnessesNormalized c m w)"
    using normalized_selectable[OF fit] by (simp add: fitnessesNormalized_def totalFitness_def)
  have l: "length (gameInstances m) = length (fitnessesNormalized c m w)"
    by (simp add: fitnessesNormalized_def fitnesses_def)
  from selection_loop_picks[OF False l sel u, where c = c and k = "nInstances m" and new = "[]"]
  obtain picks w' where run:
    "selection_loop c (gameInstances m) (nInstances m) (fitnessesNormalized c m w) [] w
       = (None, picks, w')"
    "\<forall>q<nInstances m. \<exists>i.
        roulette_pick (after_fill (fitnessesNormalized c m w))
          (upcoming (rng w) (consumed (rng w) + q)) i
        \<and> picks ! q = gameInstances m ! i"
    by auto
  then have "selection c m w = (None, m\<lparr>gameInstances := picks\<rparr>, w')"
    by (simp add: selection_def)
  then show ?thesis using run(2) by simp
qed

lemma mutation_manager [simp]: "fst (snd (mutation c m w)) = m" "fst (mutation c m w) = None"
  by (simp_all add: mutation_def)

lemma nextGeneration_cases:
  "nextGeneration c m w =
     (if fst (selection c m w) = None
      then mutation c (fst (snd (selection c m w))) (snd (snd (selection c m w)))
      else selection c m w)"
  by (auto simp: nextGeneration_def split: prod.splits option.splits)

lemmas run_defs = selection_def two_instances_def finished_world_def scoreless_world_def
  infinite_score_world_def stub_def
  fitnessesNormalized_def totalFitness_def fitnesses_def weightedRandomSelection_def
  Math_random_def wrs_loop.simps weight_at_def call_reset_def call_mutate_def numeral_2_eq_2
  numeral_3_eq_3 Let_def fill_def nextGeneration_def mutation_def mutate_calls_def
  mutate_total_def fl_values

text \<open>
  Claim C6, as stated, fails: \<open>selection()\<close> does not build a population whatever the
  fitness values. With the fitness values \<open>Infinity\<close> and \<open>2\<close> the normalized weights are
  \<open>NaN\<close> and \<open>0\<close>, \<open>weightedRandomSelection\<close> returns \<open>null\<close>, and \<open>selection()\<close> and
  \<open>nextGeneration()\<close> throw at the first \<open>reset\<close>, with one draw consumed, nothing built and
  the old population in place.
\<close>

theorem selection_builds_counterexample:
  "fitnesses stub two_instances (infinite_score_world 0) = [PInf, Fin 2]
   \<and> fitnessesNormalized stub two_instances (infinite_score_world 0) = [NaN, Fin 0]
   \<and> selection stub two_instances (infinite_score_world 0)
       = (Some TypeError, two_instances,
          (infinite_score_world 0)\<lparr>rng := \<lparr>upcoming = (\<lambda>_. 0), consumed = 1\<rparr>\<rparr>)
   \<and> nextGeneration stub two_instances (infinite_score_world 0)
       = (Some TypeError, two_instances,
          (infinite_score_world 0)\<lparr>rng := \<lparr>upcoming = (\<lambda>_. 0), consumed = 1\<rparr>\<rparr>)"
  by (simp add: run_defs)

text \<open>
  Claim C6, amended. A controller whose population has \<open>nInstances\<close> members still has a
  population of \<open>nInstances\<close> members after \<open>nextGeneration()\<close>, whatever the fitness values
  and the draws. Whenever \<open>selection()\<close> returns, and whenever \<open>nextGeneration()\<close> returns, it
  has built and installed a population of exactly \<open>nInstances\<close> members, each of them a
  member of the old population, whatever the size of the old population. Both return when
  the population is not empty (or \<open>nInstances\<close> is \<open>0\<close>), every fitness value is NaN or a
  binary64 number, finite and not negative, and every draw is in \<open>[0, 1)\<close>. For other fitness
  values \<open>selection()\<close> may throw before line 82; the old population then stays in place.
\<close>

theorem nextGeneration_preserves_size:
  "(length (gameInstances m) = nInstances m \<longrightarrow>
      length (gameInstances (fst (snd (nextGeneration c m w)))) = nInstances m
      \<and> nInstances (fst (snd (nextGeneration c m w))) = nInstances m)
   \<and> (fst (selection c m w) = None \<longrightarrow>
      length (gameInstances (fst (snd (selection c m w)))) = nInstances m
      \<and> set (gameInstances (fst (snd (selection c m w)))) \<subseteq> set (gameInstances m))
   \<and> (fst (nextGeneration c m w) = None \<longrightarrow>
      length (gameInstances (fst (snd (nextGeneration c m w)))) = nInstances m
      \<and> set (gameInstances (fst (snd (nextGeneration c m w)))) \<subseteq> set (gameInstances m))
   \<and> (fst (selection c m w) \<noteq> None \<longrightarrow>
      fst (nextGeneration c m w) \<noteq> None
      \<and> fst (snd (selection c m w)) = m \<and> fst (snd (nextGeneration c m w)) = m)
   \<and> ((gameInstances m \<noteq> [] \<or> nInstances m = 0)
      \<and> list_all (\<lambda>f. isNaN f \<or> nonneg_finite f \<and> representable f) (fitnesses c m w)
      \<and> unit_interval (rng w) \<longrightarrow>
      fst (selection c m w) = None \<and> fst (nextGeneration c m w) = None)"
proof (cases "fst (selection c m w) = None")
  case True
  from selection_builds[OF True] show ?thesis
    using True by (simp add: nextGeneration_cases)
next
  case False
  have "\<not> ((gameInstances m \<noteq> [] \<or> nInstances m = 0)
      \<and> list_all (\<lambda>f. isNaN f \<or> nonneg_finite f \<and> representable f) (fitnesses c m w)
      \<and> unit_interval (rng w))"
    using selection_succeeds[of m c w] False by blast
  then show ?thesis
    using False selection_Some[OF False] by (auto simp: nextGeneration_cases)
qed

theorem nextGeneration_preserves_size_witness:
  "length (gameInstances two_instances) = nInstances two_instances
   \<and> fst (nextGeneration stub two_instances (finished_world (1 / 2))) = None
   \<and> gameInstances (fst (snd (nextGeneration stub two_instances (finished_world (1 / 2)))))
       = [1, 1]
   \<and> fst (selection stub (two_instances\<lparr>nInstances := 3\<rparr>) (finished_world (1 / 2))) = None
   \<and> gameInstances (fst (snd (selection stub (two_instances\<lparr>nInstances := 3\<rparr>)
        (finished_world (1 / 2))))) = [1, 1, 1]
   \<and> fst (selection stub two_instances (infinite_score_world 0)) = Some TypeError
   \<and> fst (snd (selection stub two_instances (infinite_score_world 0))) = two_instances"
  using nextGeneration_preserves_size [of two_instances stub "finished_world (1 / 2)"]
    nextGeneration_preserves_size [of "two_instances\<lparr>nInstances := 3\<rparr>" stub "finished_world (1 / 2)"]
    nextGeneration_preserves_size [of two_instances stub "infinite_score_world 0"]
  by (simp add: run_defs)

section \<open>Reset after selection\<close>

lemma store_call_reset:
  "store (call_reset c r w) = (store w)(r := reset c (store w r))"
  by (simp add: call_reset_def)

lemma selection_loop_reset:
  assumes rc: "reset_contract c"
  shows "selection_loop c pop k ws new w = (None, new', w') \<Longrightarrow>
         \<forall>r\<in>set new. isOver (store w r) = False \<and> score (store w r) = Fin 0 \<Longrightarrow>
         \<forall>r\<in>set new'. isOver (store w' r) = False \<and> score (store w' r) = Fin 0"
proof (induction k arbitrary: ws new w)
  case 0
  then show ?case by simp
next
  case (Suc k)
  obtain g ws1 rs1 where step: "weightedRandomSelection pop ws (rng w) = (g, ws1, rs1)"
    by (cases "weightedRandomSelection pop ws (rng w)") auto
  with Suc.prems(1) obtain r where r: "g = Some r" by (cases g) auto
  let ?w1 = "call_reset c r (w\<lparr>rng := rs1\<rparr>)"
  have run: "selection_loop c pop k ws1 (new @ [r]) ?w1 = (None, new', w')"
    using Suc.prems(1) step r by simp
  have "\<forall>q\<in>set (new @ [r]). isOver (store ?w1 q) = False \<and> score (store ?w1 q) = Fin 0"
    using Suc.prems(2) rc by (auto simp: store_call_reset reset_contract_def)
  from Suc.IH[OF run this] show ?case .
qed

text \<open>
  Claim C9. \<open>reset\<close> clears the terminal flag and the score of the instance it is called on.
  Then, when \<open>selection()\<close> returns, every member of the new population is not over and has
  the score \<open>0\<close>, whatever the flags and scores were before: each member was reset when it
  was pushed, and no later step of the loop does anything to an instance but reset it.
\<close>

theorem selection_resets_population:
  assumes "reset_contract c" and "fst (selection c m w) = None"
  shows "\<forall>r\<in>set (gameInstances (fst (snd (selection c m w)))).
           isOver (store (snd (snd (selection c m w))) r) = False
           \<and> score (store (snd (snd (selection c m w))) r) = Fin 0"
proof -
  obtain e new1 w1 where run:
    "selection_loop c (gameInstances m) (nInstances m) (fitnessesNormalized c m w) [] w = (e, new1, w1)"
    by (cases "selection_loop c (gameInstances m) (nInstances m) (fitnessesNormalized c m w) [] w") auto
  with assms(2) have e: "e = None"
    by (auto simp: selection_def split: option.splits)
  have res: "selection c m w = (None, m\<lparr>gameInstances := new1\<rparr>, w1)"
    using run e by (simp add: selection_def)
  have "\<forall>r\<in>set new1. isOver (store w1 r) = False \<and> score (store w1 r) = Fin 0"
    using selection_loop_reset[OF assms(1), of "gameInstances m" "nInstances m" _ "[]" w new1 w1]
      run e by simp
  then show ?thesis using res by simp
qed

theorem selection_resets_population_witness:
  "reset_contract stub
   \<and> fst (selection stub two_instances (finished_world (1 / 2))) = None
   \<and> isOver (store (finished_world (1 / 2)) 1) = True
   \<and> score (store (finished_world (1 / 2)) 1) = Fin 3
   \<and> gameInstances (fst (snd (selection stub two_instances (finished_world (1 / 2))))) = [1, 1]
   \<and> isOver (store (snd (snd (selection stub two_instances (finished_world (1 / 2))))) 1) = False
   \<and> score (store (snd (snd (selection stub two_instances (finished_world (1 / 2))))) 1) = Fin 0"
proof -
  have rc: "reset_contract stub" by (simp add: reset_contract_def stub_def)
  have ok: "fst (selection stub two_instances (finished_world (1 / 2))) = None"
    by (simp add: run_defs)
  have pop: "gameInstances (fst (snd (selection stub two_instances (finished_world (1 / 2))))) = [1, 1]"
    by (simp add: run_defs)
  have before: "isOver (store (finished_world (1 / 2)) 1) = True
      \<and> score (store (finished_world (1 / 2)) 1) = Fin 3"
    by (simp add: finished_world_def)
  show ?thesis
    using selection_resets_population[OF rc ok] rc ok pop before by simp
qed

section \<open>Mutation\<close>

lemma mutate_calls_call_mutate:
  "mutate_calls (call_mutate c q w) r = mutate_calls w r + (if q = r then 1 else 0)"
  by (simp add: mutate_calls_def call_mutate_def)

lemma store_call_mutate:
  "store (call_mutate c q w) r = (if q = r then mutate c (store w r) else store w r)"
  by (simp add: call_mutate_def)

lemma trace_call_mutate: "trace (call_mutate c q w) = trace w @ [Mutate q]"
  by (simp add: call_mutate_def)

lemma frame_call_mutate [simp]:
  "rng (call_mutate c q w) = rng w" "nextRef (call_mutate c q w) = nextRef w"
  by (simp_all add: call_mutate_def)

lemma mutation_loop_calls:
  "mutate_calls (foldl (\<lambda>w' q. call_mutate c q w') w rs) r = mutate_calls w r + count_list rs r"
  by (induction rs arbitrary: w) (simp_all add: mutate_calls_call_mutate)

lemma mutation_loop_store:
  "store (foldl (\<lambda>w' q. call_mutate c q w') w rs) r = (mutate c ^^ count_list rs r) (store w r)"
  by (induction rs arbitrary: w) (simp_all add: store_call_mutate funpow_swap1)

lemma mutation_loop_trace:
  "trace (foldl (\<lambda>w' q. call_mutate c q w') w rs) = trace w @ map Mutate rs"
  by (induction rs arbitrary: w) (simp_all add: trace_call_mutate)

lemma count_list_distinct: "distinct rs \<Longrightarrow> r \<in> set rs \<Longrightarrow> count_list rs r = 1"
  by (induction rs) auto

lemma mutate_total_call_mutate: "mutate_total (call_mutate c q w) = Suc (mutate_total w)"
  by (simp add: mutate_total_def call_mutate_def)

lemma mutation_loop_total:
  "mutate_total (foldl (\<lambda>w' q. call_mutate c q w') w rs) = mutate_total w + length rs"
  by (induction rs arbitrary: w) (simp_all add: mutate_total_call_mutate)

lemma trace_call_reset: "trace (call_reset c r w) = trace w @ [Reset r]"
  by (simp add: call_reset_def)

text \<open>\<open>selection()\<close> calls \<open>reset\<close> only: it leaves the count of the \<open>mutate\<close> calls as it is.\<close>

lemma selection_loop_mutate:
  "selection_loop c pop k ws new w = (e, new', w') \<Longrightarrow>
   mutate_total w' = mutate_total w \<and> (\<forall>r. mutate_calls w' r = mutate_calls w r)"
proof (induction k arbitrary: ws new w)
  case 0
  then show ?case by simp
next
  case (Suc k)
  obtain g ws1 rs1 where step: "weightedRandomSelection pop ws (rng w) = (g, ws1, rs1)"
    by (cases "weightedRandomSelection pop ws (rng w)") auto
  show ?case
  proof (cases g)
    case None
    with Suc.prems step show ?thesis by (auto simp: mutate_total_def mutate_calls_def)
  next
    case (Some r)
    let ?w1 = "call_reset c r (w\<lparr>rng := rs1\<rparr>)"
    have "selection_loop c pop k ws1 (new @ [r]) ?w1 = (e, new', w')"
      using Suc.prems step Some by simp
    from Suc.IH[OF this] show ?thesis
      by (simp add: mutate_total_def mutate_calls_def trace_call_reset)
  qed
qed

lemma selection_mutate:
  "mutate_total (snd (snd (selection c m w))) = mutate_total w
   \<and> (\<forall>r. mutate_calls (snd (snd (selection c m w))) r = mutate_calls w r)"
proof (cases "selection_loop c (gameInstances m) (nInstances m) (fitnessesNormalized c m w) [] w")
  case (fields e picks w')
  from selection_loop_mutate[OF fields] fields show ?thesis
    by (cases e) (simp_all add: selection_def)
qed

text \<open>
  Claim C7, amended. \<open>mutation()\<close> calls \<open>mutate\<close> once for every slot of the population, in
  the order of the slots: as many calls as the population has slots, which is \<open>nInstances\<close>
  calls when the population has \<open>nInstances\<close> members, as it has within a
  \<open>nextGeneration()\<close> that returns. An instance that sits in \<open>k\<close> slots is mutated \<open>k\<close>
  times, and its state is \<open>mutate\<close> applied \<open>k\<close> times. Every instance of the population is
  mutated exactly once when no instance sits in two slots.
\<close>

theorem mutation_once_per_slot:
  "fst (mutation c m w) = None
   \<and> fst (snd (mutation c m w)) = m
   \<and> trace (snd (snd (mutation c m w))) = trace w @ map Mutate (gameInstances m)
   \<and> mutate_total (snd (snd (mutation c m w))) = mutate_total w + length (gameInstances m)
   \<and> (length (gameInstances m) = nInstances m \<longrightarrow>
        mutate_total (snd (snd (mutation c m w))) = mutate_total w + nInstances m)
   \<and> (fst (nextGeneration c m w) = None \<longrightarrow>
        mutate_total (snd (snd (nextGeneration c m w))) = mutate_total w + nInstances m
        \<and> (\<forall>r. mutate_calls (snd (snd (nextGeneration c m w))) r
                = mutate_calls w r + count_list (gameInstances (fst (snd (nextGeneration c m w)))) r))
   \<and> (\<forall>r. mutate_calls (snd (snd (mutation c m w))) r
            = mutate_calls w r + count_list (gameInstances m) r)
   \<and> (\<forall>r. store (snd (snd (mutation c m w))) r
            = (mutate c ^^ count_list (gameInstances m) r) (store w r))
   \<and> (distinct (gameInstances m) \<longrightarrow>
        (\<forall>r\<in>set (gameInstances m).
           mutate_calls (snd (snd (mutation c m w))) r = mutate_calls w r + 1))"
proof -
  have ng: "mutate_total (snd (snd (nextGeneration c m w))) = mutate_total w + nInstances m
        \<and> (\<forall>r. mutate_calls (snd (snd (nextGeneration c m w))) r
                = mutate_calls w r + count_list (gameInstances (fst (snd (nextGeneration c m w)))) r)"
    if ok: "fst (nextGeneration c m w) = None"
  proof -
    have sel: "fst (selection c m w) = None"
      using ok by (auto simp: nextGeneration_cases split: if_splits)
    from selection_builds[OF sel] selection_mutate[of c m w] show ?thesis
      using sel by (simp add: nextGeneration_cases mutation_def mutation_loop_total mutation_loop_calls)
  qed
  show ?thesis
    using ng
    by (simp add: mutation_def mutation_loop_calls mutation_loop_store mutation_loop_trace
        mutation_loop_total count_list_distinct)
qed

theorem mutation_once_per_slot_witness:
  "distinct (gameInstances two_instances)
   \<and> mutate_calls (finished_world 0) 0 = 0
   \<and> mutate_calls (snd (snd (mutation stub two_instances (finished_world 0)))) 0 = 1
   \<and> mutate_calls (snd (snd (mutation stub two_instances (finished_world 0)))) 1 = 1
   \<and> mutate_total (snd (snd (mutation stub two_instances (finished_world 0)))) = 2
   \<and> mutate_calls (snd (snd (mutation stub (two_instances\<lparr>gameInstances := [1, 1]\<rparr>)
         (finished_world 0)))) 1 = 2
   \<and> fst (nextGeneration stub two_instances (finished_world (1 / 2))) = None
   \<and> mutate_total (snd (snd (nextGeneration stub two_instances (finished_world (1 / 2))))) = 2"
  using mutation_once_per_slot[of stub two_instances "finished_world 0"]
    mutation_once_per_slot[of stub "two_instances\<lparr>gameInstances := [1, 1]\<rparr>" "finished_world 0"]
    mutation_once_per_slot[of stub two_instances "finished_world (1 / 2)"]
  by (simp add: run_defs)

text \<open>
  Claim C7, as stated, fails. With the scores \<open>1\<close> and \<open>3\<close> and every draw at \<open>1/2\<close>,
  \<open>selection()\<close> puts the instance \<open>1\<close> into both slots of the new population; \<open>mutation()\<close>
  then calls \<open>mutate\<close> on it twice, and both slots still hold the one object.
\<close>

theorem mutated_once_counterexample:
  "gameInstances (fst (snd (selection stub two_instances (finished_world (1 / 2))))) = [1, 1]
   \<and> mutate_calls (snd (snd (selection stub two_instances (finished_world (1 / 2))))) 1 = 0
   \<and> mutate_calls (snd (snd (nextGeneration stub two_instances (finished_world (1 / 2))))) 1 = 2
   \<and> snake (store (snd (snd (selection stub two_instances (finished_world (1 / 2))))) 1) = 0
   \<and> snake (store (snd (snd (nextGeneration stub two_instances (finished_world (1 / 2))))) 1) = 2"
  by (simp add: run_defs)

section \<open>Construction of the population\<close>

lemma createGameInstances_loop_result:
  "createGameInstances_loop c s f k m w =
     (m\<lparr>gameInstances := gameInstances m @ [nextRef w ..< nextRef w + k]\<rparr>,
      w\<lparr>store := (\<lambda>r. if nextRef w \<le> r \<and> r < nextRef w + k
                       then GameInstance_new c (Snake_copy c s) (Food_copy c f)
                       else store w r),
        nextRef := nextRef w + k\<rparr>)"
proof (induction k arbitrary: m w)
  case 0
  have none: "\<And>r. (nextRef w \<le> r \<and> r < nextRef w) = False" by auto
  have "w\<lparr>store := store w\<rparr> = w" by simp
  then show ?case by (simp add: none)
next
  case (Suc k)
  have l: "nextRef w # [Suc (nextRef w)..<Suc (nextRef w + k)] = [nextRef w..<Suc (nextRef w + k)]"
    by (simp add: upt_conv_Cons)
  show ?case
    by (simp add: Suc.IH createGameInstance_def l fun_eq_iff del: upt_Suc) 
qed

lemma createGameInstances_result:
  "createGameInstances c s f (m, w) =
     (m\<lparr>gameInstances := gameInstances m @ [nextRef w ..< nextRef w + nInstances m]\<rparr>,
      w\<lparr>store := (\<lambda>r. if nextRef w \<le> r \<and> r < nextRef w + nInstances m
                       then GameInstance_new c (Snake_copy c s) (Food_copy c f)
                       else store w r),
        nextRef := nextRef w + nInstances m\<rparr>)"
  by (simp add: createGameInstances_def createGameInstances_loop_result)

lemma createGameInstances_iterated:
  "length (gameInstances (fst ((createGameInstances c s f ^^ k) (m, w))))
     = length (gameInstances m) + k * nInstances m
   \<and> nInstances (fst ((createGameInstances c s f ^^ k) (m, w))) = nInstances m"
proof (induction k)
  case 0
  then show ?case by simp
next
  case (Suc k)
  obtain m1 w1 where p: "(createGameInstances c s f ^^ k) (m, w) = (m1, w1)"
    by (cases "(createGameInstances c s f ^^ k) (m, w)") auto
  with Suc show ?case by (simp add: createGameInstances_result)
qed

text \<open>
  Claim C10. A call of \<open>createGameInstances\<close> keeps the instances the manager already has
  and appends \<open>nInstances\<close> references, those of the objects it has just created. After
  \<open>k\<close> calls on a new manager the population has \<open>k * nInstances\<close> members. On a new
  manager, whose population is empty, \<open>allInstancesOver()\<close> is true.
\<close>

theorem createGameInstances_appends:
  "gameInstances (fst (createGameInstances c s f (m, w)))
     = gameInstances m @ [nextRef w ..< nextRef w + nInstances m]
   \<and> length (gameInstances (fst (createGameInstances c s f (m, w))))
     = length (gameInstances m) + nInstances m
   \<and> length (gameInstances
        (fst ((createGameInstances c s f ^^ k) (GameInstancesManager_new n, w)))) = k * n
   \<and> allInstancesOver (GameInstancesManager_new n) w = True"
  using createGameInstances_iterated[where c = c and s = s and f = f and k = k
      and m = "GameInstancesManager_new n" and w = w]
  by (simp add: createGameInstances_result GameInstancesManager_new_def allInstancesOver_def)

text \<open>
  Claim C8. The constructor of \<open>GameInstance\<close> declares no parameter, so the copies that
  \<open>createGameInstances\<close> passes are dropped: each instance holds a fresh \<open>Snake\<close> and a fresh
  \<open>Food\<close>. With a prototype snake in state \<open>7\<close> and a prototype food in state \<open>9\<close>, whose
  copies are in the states \<open>7\<close> and \<open>9\<close>, both instances created hold the snake and the
  food of state \<open>0\<close> that \<open>new\<close> builds. They do start with the score \<open>0\<close> and not over.
\<close>

theorem constructor_drops_prototype_copies:
  "gameInstances (fst (createGameInstances stub 7 9
      (GameInstancesManager_new 2, scoreless_world 0))) = [2, 3]
   \<and> Snake_copy stub 7 = 7 \<and> Food_copy stub 9 = 9
   \<and> store (snd (createGameInstances stub 7 9 (GameInstancesManager_new 2, scoreless_world 0))) 2
       = \<lparr>snake = 0, food = 0, score = Fin 0, isOver = False\<rparr>
   \<and> store (snd (createGameInstances stub 7 9 (GameInstancesManager_new 2, scoreless_world 0))) 3
       = \<lparr>snake = 0, food = 0, score = Fin 0, isOver = False\<rparr>"
  by (simp add: createGameInstances_result GameInstancesManager_new_def scoreless_world_def
      GameInstance_new_def stub_def)

section \<open>The fallback on weights that are all NaN\<close>

text \<open>
  Claim C3. First part: elements and weights are non-empty and of equal length and every
  weight is NaN. Then the call overwrites every weight with \<open>1 / weights.length\<close> and
  returns an element: the one the loop stops at on these equal weights. Second part: the
  population is not empty, every fitness is a binary64 number, finite and not negative,
  and \<open>totalFitness\<close> is \<open>0\<close>. Then every normalized weight is NaN, \<open>selection()\<close> throws
  nothing and installs \<open>nInstances\<close> members, and each slot of the new population holds
  the pick of its own draw on the equal weights \<open>1 / length\<close> that the first call wrote.
\<close>

theorem all_NaN_uniform_fallback:
  "(elements \<noteq> [] \<and> length elements = length weights \<and> list_all isNaN weights
      \<and> 0 \<le> upcoming rs (consumed rs) \<and> upcoming rs (consumed rs) < 1 \<longrightarrow>
    (\<exists>i<length elements.
        roulette_pick
          (replicate (length weights) (jsdiv (Fin 1) (Fin (real (length weights)))))
          (upcoming rs (consumed rs)) i
        \<and> weightedRandomSelection elements weights rs =
            (Some (elements ! i),
             replicate (length weights) (jsdiv (Fin 1) (Fin (real (length weights)))),
             rs\<lparr>consumed := Suc (consumed rs)\<rparr>)))
   \<and> (gameInstances m \<noteq> []
        \<and> list_all (\<lambda>f. nonneg_finite f \<and> representable f) (fitnesses c m w)
        \<and> totalFitness c m w = Fin 0 \<and> unit_interval (rng w) \<longrightarrow>
      list_all isNaN (fitnessesNormalized c m w)
      \<and> fst (selection c m w) = None
      \<and> length (gameInstances (fst (snd (selection c m w)))) = nInstances m
      \<and> (\<forall>q<nInstances m. \<exists>i<length (gameInstances m).
            roulette_pick
              (replicate (length (gameInstances m))
                 (jsdiv (Fin 1) (Fin (real (length (gameInstances m))))))
              (upcoming (rng w) (consumed (rng w) + q)) i
            \<and> gameInstances (fst (snd (selection c m w))) ! q = gameInstances m ! i))"
proof (intro conjI impI)
  assume h: "elements \<noteq> [] \<and> length elements = length weights \<and> list_all isNaN weights
      \<and> 0 \<le> upcoming rs (consumed rs) \<and> upcoming rs (consumed rs) < 1"
  then have sel: "selectable weights" by (simp add: selectable_def)
  have af: "after_fill weights =
      replicate (length weights) (jsdiv (Fin 1) (Fin (real (length weights))))"
    using h by (simp add: after_fill_def fill_replicate)
  from wrs_selectable[OF _ _ sel] h obtain i where i:
    "roulette_pick (after_fill weights) (upcoming rs (consumed rs)) i"
    "weightedRandomSelection elements weights rs =
       (Some (elements ! i), after_fill weights, rs\<lparr>consumed := Suc (consumed rs)\<rparr>)"
    by blast
  have "i < length elements" using i(1) h by (simp add: roulette_pick_def)
  then show "\<exists>i<length elements.
        roulette_pick
          (replicate (length weights) (jsdiv (Fin 1) (Fin (real (length weights)))))
          (upcoming rs (consumed rs)) i
        \<and> weightedRandomSelection elements weights rs =
            (Some (elements ! i),
             replicate (length weights) (jsdiv (Fin 1) (Fin (real (length weights)))),
             rs\<lparr>consumed := Suc (consumed rs)\<rparr>)"
    using i af by auto
next
  assume h: "gameInstances m \<noteq> []
        \<and> list_all (\<lambda>f. nonneg_finite f \<and> representable f) (fitnesses c m w)
        \<and> totalFitness c m w = Fin 0 \<and> unit_interval (rng w)"
  have nan: "list_all isNaN (fitnessesNormalized c m w)"
    using zero_total_normalized[of "fitnesses c m w"] h
    by (simp add: fitnessesNormalized_def totalFitness_def)
  show "list_all isNaN (fitnessesNormalized c m w)" by (rule nan)
  have l: "length (fitnessesNormalized c m w) = length (gameInstances m)"
    by (simp add: fitnessesNormalized_def fitnesses_def)
  have af: "after_fill (fitnessesNormalized c m w) =
      replicate (length (gameInstances m)) (jsdiv (Fin 1) (Fin (real (length (gameInstances m)))))"
    using nan l by (simp add: after_fill_def fill_replicate)
  have fit: "list_all (\<lambda>f. isNaN f \<or> nonneg_finite f \<and> representable f) (fitnesses c m w)"
    using h by (simp add: list_all_iff)
  from selection_succeeds[OF _ fit, of ] h
  have ok: "fst (selection c m w) = None"
    and picks: "\<forall>q<nInstances m. \<exists>i.
               roulette_pick (after_fill (fitnessesNormalized c m w))
                 (upcoming (rng w) (consumed (rng w) + q)) i
               \<and> gameInstances (fst (snd (selection c m w))) ! q = gameInstances m ! i"
    by simp_all
  show "fst (selection c m w) = None" by (rule ok)
  show "length (gameInstances (fst (snd (selection c m w)))) = nInstances m"
    using selection_builds[OF ok] by simp
  show "\<forall>q<nInstances m. \<exists>i<length (gameInstances m).
            roulette_pick
              (replicate (length (gameInstances m))
                 (jsdiv (Fin 1) (Fin (real (length (gameInstances m))))))
              (upcoming (rng w) (consumed (rng w) + q)) i
            \<and> gameInstances (fst (snd (selection c m w))) ! q = gameInstances m ! i"
  proof (intro allI impI)
    fix q assume "q < nInstances m"
    with picks obtain i where i:
      "roulette_pick (after_fill (fitnessesNormalized c m w))
         (upcoming (rng w) (consumed (rng w) + q)) i"
      "gameInstances (fst (snd (selection c m w))) ! q = gameInstances m ! i"
      by blast
    have "i < length (gameInstances m)" using i(1) l by (simp add: roulette_pick_def)
    then show "\<exists>i<length (gameInstances m).
            roulette_pick
              (replicate (length (gameInstances m))
                 (jsdiv (Fin 1) (Fin (real (length (gameInstances m))))))
              (upcoming (rng w) (consumed (rng w) + q)) i
            \<and> gameInstances (fst (snd (selection c m w))) ! q = gameInstances m ! i"
      using i af by auto
  qed
qed

theorem all_NaN_uniform_fallback_witness:
  "weightedRandomSelection ''ab'' [NaN, NaN] \<lparr>upcoming = (\<lambda>_. 3 / 4), consumed = 0\<rparr>
     = (Some CHR ''b'', [Fin (1 / 2), Fin (1 / 2)], \<lparr>upcoming = (\<lambda>_. 3 / 4), consumed = 1\<rparr>)
   \<and> totalFitness stub two_instances (scoreless_world (3 / 4)) = Fin 0
   \<and> fitnessesNormalized stub two_instances (scoreless_world (3 / 4)) = [NaN, NaN]
   \<and> fst (selection stub two_instances (scoreless_world (3 / 4))) = None
   \<and> gameInstances (fst (snd (selection stub two_instances (scoreless_world (3 / 4))))) = [1, 1]"
  using all_NaN_uniform_fallback[where elements = "''ab''" and weights = "[NaN, NaN]"
      and rs = "\<lparr>upcoming = (\<lambda>_. 3 / 4), consumed = 0\<rparr>"
      and m = two_instances and c = stub and w = "scoreless_world (3 / 4)"]
  by (simp add: run_defs)

end
